theory Spec2Isabelle
  imports Main
begin

section \<open>Characters and strings of the validated document\<close>

text \<open>
  The validator (\<^verbatim>\<open>validate_html.py\<close>) works on a Python \<^verbatim>\<open>str\<close>. A document is
  modelled as a \<^typ>\<open>string\<close>; a \<^typ>\<open>char\<close> stands for the code point of the same
  number, so the model covers the documents whose code points are below 256.
  The classes below are the ones of Python 3 (\<^verbatim>\<open>str.isspace\<close>, the \<^verbatim>\<open>\w\<close> and
  \<^verbatim>\<open>\s\<close> of \<^verbatim>\<open>re\<close> on \<^verbatim>\<open>str\<close> patterns, \<^verbatim>\<open>str.lower\<close>, the line boundaries of
  \<^verbatim>\<open>str.splitlines\<close>) on that range.
\<close>

definition code :: "char \<Rightarrow> nat" where
  "code c = of_char c"

definition is_space :: "char \<Rightarrow> bool" where
  "is_space c = ((9 \<le> code c \<and> code c \<le> 13) \<or> (28 \<le> code c \<and> code c \<le> 32)
     \<or> code c = 133 \<or> code c = 160)"

definition is_ascii_digit :: "char \<Rightarrow> bool" where
  "is_ascii_digit c = (48 \<le> code c \<and> code c \<le> 57)"

definition is_ascii_alpha :: "char \<Rightarrow> bool" where
  "is_ascii_alpha c = ((65 \<le> code c \<and> code c \<le> 90) \<or> (97 \<le> code c \<and> code c \<le> 122))"

definition is_hex_digit :: "char \<Rightarrow> bool" where
  "is_hex_digit c = (is_ascii_digit c \<or> (97 \<le> code c \<and> code c \<le> 102)
     \<or> (65 \<le> code c \<and> code c \<le> 70))"

definition is_word :: "char \<Rightarrow> bool" where
  "is_word c = (is_ascii_digit c \<or> is_ascii_alpha c \<or> code c = 95
     \<or> code c = 170 \<or> code c = 178 \<or> code c = 179 \<or> code c = 181
     \<or> code c = 185 \<or> code c = 186 \<or> (188 \<le> code c \<and> code c \<le> 190)
     \<or> (192 \<le> code c \<and> code c \<le> 214) \<or> (216 \<le> code c \<and> code c \<le> 246)
     \<or> 248 \<le> code c)"

definition lower :: "char \<Rightarrow> char" where
  "lower c = (if (65 \<le> code c \<and> code c \<le> 90) \<or> (192 \<le> code c \<and> code c \<le> 222 \<and> code c \<noteq> 215)
     then char_of (code c + 32) else c)"

definition is_linebreak :: "char \<Rightarrow> bool" where
  "is_linebreak c = ((10 \<le> code c \<and> code c \<le> 13) \<or> (28 \<le> code c \<and> code c \<le> 30)
     \<or> code c = 133)"

definition dquote :: char where "dquote = CHR 0x22"
definition squote :: char where "squote = CHR 0x27"
definition backslash :: char where "backslash = CHR 0x5C"
definition newline :: char where "newline = CHR 0x0A"
definition carriage_return :: char where "carriage_return = CHR 0x0D"

section \<open>A backtracking matcher for the patterns of the validator\<close>

text \<open>
  The patterns of the source are Python regular expressions. They are embedded as terms
  of \<open>regex\<close> and run by \<open>rmatch\<close>, a backtracking matcher that returns every way the
  pattern can match at the current position, in the order in which Python's matcher
  tries them (the first is the match Python reports). A match state holds the character
  before the position (for \<^verbatim>\<open>\b\<close>), the text from the position on, and the groups
  captured so far. An iteration of a star that consumes no character is dropped, which
  keeps the matcher total; every star of the source stands over a single character.
  With the flag \<open>ic\<close> (\<^verbatim>\<open>re.I\<close>) a literal and a back-reference match up to
  \<open>lower\<close>.
\<close>

datatype regex =
    Eps
  | Lit char
  | Cls "char \<Rightarrow> bool"
  | Seq regex regex
  | Alt regex regex
  | Star regex
  | LazyStar regex
  | WordB
  | Group nat regex
  | Backref nat
  | NegLook regex

record mstate =
  prev :: "char option"
  rest :: string
  groups :: "(nat \<times> string) list"

definition lit_eq :: "bool \<Rightarrow> char \<Rightarrow> char \<Rightarrow> bool" where
  "lit_eq ic p c = (if ic then lower p = lower c else p = c)"

definition last_opt :: "char option \<Rightarrow> string \<Rightarrow> char option" where
  "last_opt p ys = (if ys = [] then p else Some (last ys))"

definition consume :: "string \<Rightarrow> mstate \<Rightarrow> mstate" where
  "consume ys s = s\<lparr>prev := last_opt (prev s) ys, rest := drop (length ys) (rest s)\<rparr>"

definition at_boundary :: "mstate \<Rightarrow> bool" where
  "at_boundary s =
     ((case prev s of None \<Rightarrow> False | Some c \<Rightarrow> is_word c)
      \<noteq> (case rest s of [] \<Rightarrow> False | c # _ \<Rightarrow> is_word c))"

function rmatch :: "bool \<Rightarrow> regex \<Rightarrow> mstate \<Rightarrow> mstate list" where
  "rmatch ic Eps s = [s]"
| "rmatch ic (Lit p) s =
     (case rest s of [] \<Rightarrow> [] | c # cs \<Rightarrow> if lit_eq ic p c then [consume [c] s] else [])"
| "rmatch ic (Cls P) s =
     (case rest s of [] \<Rightarrow> [] | c # cs \<Rightarrow> if P c then [consume [c] s] else [])"
| "rmatch ic (Seq r1 r2) s = concat (map (rmatch ic r2) (rmatch ic r1 s))"
| "rmatch ic (Alt r1 r2) s = rmatch ic r1 s @ rmatch ic r2 s"
| "rmatch ic (Star r) s =
     concat (map (rmatch ic (Star r))
                 (filter (\<lambda>t. length (rest t) < length (rest s)) (rmatch ic r s))) @ [s]"
| "rmatch ic (LazyStar r) s =
     s # concat (map (rmatch ic (LazyStar r))
                     (filter (\<lambda>t. length (rest t) < length (rest s)) (rmatch ic r s)))"
| "rmatch ic WordB s = (if at_boundary s then [s] else [])"
| "rmatch ic (Group n r) s =
     map (\<lambda>t. t\<lparr>groups := (n, take (length (rest s) - length (rest t)) (rest s)) # groups t\<rparr>)
         (rmatch ic r s)"
| "rmatch ic (Backref n) s =
     (case map_of (groups s) n of
        None \<Rightarrow> []
      | Some g \<Rightarrow>
          if length g \<le> length (rest s) \<and> list_all2 (lit_eq ic) g (take (length g) (rest s))
          then [consume (take (length g) (rest s)) s] else [])"
| "rmatch ic (NegLook r) s = (if rmatch ic r s = [] then [s] else [])"
  by pat_completeness auto
termination
  by (relation "measures [\<lambda>(ic, r, s). size r, \<lambda>(ic, r, s). length (rest s)]") auto

definition Plus :: "regex \<Rightarrow> regex" where
  "Plus r = Seq r (Star r)"

fun lits :: "string \<Rightarrow> regex" where
  "lits [] = Eps"
| "lits (c # cs) = Seq (Lit c) (lits cs)"

fun seqs :: "regex list \<Rightarrow> regex" where
  "seqs [] = Eps"
| "seqs (r # rs) = Seq r (seqs rs)"

text \<open>
  \<^verbatim>\<open>re.search\<close>: the pattern is tried at every position from the left, the end of the
  text included; here only whether a match exists is needed.
\<close>

fun search_from :: "bool \<Rightarrow> regex \<Rightarrow> char option \<Rightarrow> string \<Rightarrow> bool" where
  "search_from ic r p [] = (rmatch ic r \<lparr>prev = p, rest = [], groups = []\<rparr> \<noteq> [])"
| "search_from ic r p (c # cs) =
     (rmatch ic r \<lparr>prev = p, rest = c # cs, groups = []\<rparr> \<noteq> [] \<or> search_from ic r (Some c) cs)"

definition re_search :: "bool \<Rightarrow> regex \<Rightarrow> string \<Rightarrow> bool" where
  "re_search ic r content = search_from ic r None content"

text \<open>
  \<^verbatim>\<open>re.finditer\<close> and \<^verbatim>\<open>re.findall\<close>: the leftmost match, then the scan goes on from
  its end. After a match of length 0 the scan moves one character on (no pattern of the
  validator has an empty match). The result is the list of the final states of the
  matches, from which \<open>findall_group\<close> reads the text of a group.
\<close>

function finditer_from :: "bool \<Rightarrow> regex \<Rightarrow> char option \<Rightarrow> string \<Rightarrow> mstate list" where
  "finditer_from ic r p cs =
     (case rmatch ic r \<lparr>prev = p, rest = cs, groups = []\<rparr> of
        [] \<Rightarrow> (case cs of [] \<Rightarrow> [] | c # cs' \<Rightarrow> finditer_from ic r (Some c) cs')
      | m # _ \<Rightarrow>
          m # (if length (rest m) < length cs then finditer_from ic r (prev m) (rest m)
               else (case cs of [] \<Rightarrow> [] | c # cs' \<Rightarrow> finditer_from ic r (Some c) cs')))"
  by pat_completeness auto
termination
  by (relation "measure (\<lambda>(ic, r, p, cs). length cs)") auto

declare finditer_from.simps [simp del]

definition finditer :: "bool \<Rightarrow> regex \<Rightarrow> string \<Rightarrow> mstate list" where
  "finditer ic r content = finditer_from ic r None content"

definition group_text :: "nat \<Rightarrow> mstate \<Rightarrow> string" where
  "group_text n m = (case map_of (groups m) n of None \<Rightarrow> [] | Some g \<Rightarrow> g)"

definition findall_group :: "bool \<Rightarrow> regex \<Rightarrow> string \<Rightarrow> string list" where
  "findall_group ic r content = map (group_text 1) (finditer ic r content)"

definition findall_count :: "bool \<Rightarrow> regex \<Rightarrow> string \<Rightarrow> nat" where
  "findall_count ic r content = length (finditer ic r content)"

section \<open>The validator\<close>

subsection \<open>Patterns\<close>

text \<open>
  Each pattern of the source, as a term. \<^verbatim>\<open>x+\<close> is \<open>Plus x\<close>, \<^verbatim>\<open>x*\<close> is \<open>Star x\<close>,
  \<^verbatim>\<open>x*?\<close> is \<open>LazyStar x\<close>, \<^verbatim>\<open>.\<close> is every character but the newline (no DOTALL
  flag is given), \<^verbatim>\<open>[\s\S]\<close> is every character.
\<close>

definition any_char :: "char \<Rightarrow> bool" where
  "any_char c = True"

definition dot :: "char \<Rightarrow> bool" where
  "dot c = (c \<noteq> newline)"

definition not_gt :: "char \<Rightarrow> bool" where
  "not_gt c = (c \<noteq> CHR ''>'')"

definition quote_class :: "char \<Rightarrow> bool" where
  "quote_class c = (c = dquote \<or> c = backslash \<or> c = squote)"

text \<open>\<^verbatim>\<open><!DOCTYPE\s+html\<close>\<close>
definition doctype_re :: regex where
  "doctype_re = seqs [lits ''<!DOCTYPE'', Plus (Cls is_space), lits ''html'']"

text \<open>\<^verbatim>\<open><html\b\<close> and \<^verbatim>\<open></html>\<close>\<close>
definition html_open_re :: regex where
  "html_open_re = Seq (lits ''<html'') WordB"

definition html_close_re :: regex where
  "html_close_re = lits ''</html>''"

text \<open>\<^verbatim>\<open><html[^>]*\blang\s*=\s*([\"\\\'])(.*?)\1\<close>\<close>
definition lang_re :: regex where
  "lang_re = seqs [lits ''<html'', Star (Cls not_gt), WordB, lits ''lang'',
     Star (Cls is_space), Lit CHR ''='', Star (Cls is_space),
     Group 1 (Cls quote_class), Group 2 (LazyStar (Cls dot)), Backref 1]"

text \<open>\<^verbatim>\<open><head\b\<close>, \<^verbatim>\<open></head>\<close>, \<^verbatim>\<open><body\b\<close> and \<^verbatim>\<open></body>\<close>\<close>
definition head_open_re :: regex where
  "head_open_re = Seq (lits ''<head'') WordB"

definition head_close_re :: regex where
  "head_close_re = lits ''</head>''"

definition body_open_re :: regex where
  "body_open_re = Seq (lits ''<body'') WordB"

definition body_close_re :: regex where
  "body_close_re = lits ''</body>''"

text \<open>\<^verbatim>\<open><head[\s\S]*?<title>.*?</title>\<close>\<close>
definition title_re :: regex where
  "title_re = seqs [lits ''<head'', LazyStar (Cls any_char), lits ''<title>'',
     LazyStar (Cls dot), lits ''</title>'']"

text \<open>\<^verbatim>\<open><link\s+([^>]+)>\<close>\<close>
definition link_re :: regex where
  "link_re = seqs [lits ''<link'', Plus (Cls is_space), Group 1 (Plus (Cls not_gt)),
     Lit CHR ''>'']"

text \<open>\<^verbatim>\<open>{name}\s*=\s*("[^"]*"|\'[^\']*\')\<close>, for a \<open>name\<close> of letters only\<close>
definition attr_re :: "string \<Rightarrow> regex" where
  "attr_re name = seqs [lits name, Star (Cls is_space), Lit CHR ''='', Star (Cls is_space),
     Group 1 (Alt (seqs [Lit dquote, Star (Cls (\<lambda>c. c \<noteq> dquote)), Lit dquote])
                  (seqs [Lit squote, Star (Cls (\<lambda>c. c \<noteq> squote)), Lit squote]))]"

text \<open>\<^verbatim>\<open>&(?!(#[0-9]+|#x[0-9a-fA-F]+|[a-zA-Z]+);)\<close>\<close>
definition amp_re :: regex where
  "amp_re = Seq (Lit CHR ''&'')
     (NegLook (Seq (Group 1 (Alt (Seq (Lit CHR ''#'') (Plus (Cls is_ascii_digit)))
                            (Alt (Seq (lits ''#x'') (Plus (Cls is_hex_digit)))
                                 (Plus (Cls is_ascii_alpha)))))
                   (Lit CHR '';'')))"

subsection \<open>Helpers of the source\<close>

text \<open>
  The file system as far as the script sees it: a path names nothing, a directory, or a
  file. The text of a file is what \<^verbatim>\<open>read_text(encoding='utf-8', errors='replace')\<close>
  returns for it. \<^verbatim>\<open>Path.exists\<close> holds for a directory too, and reading one raises.
\<close>

datatype fsnode = File string | Directory

type_synonym filesystem = "string \<Rightarrow> fsnode option"

datatype py_error = FileNotFoundError | IsADirectoryError

definition exists :: "filesystem \<Rightarrow> string \<Rightarrow> bool" where
  "exists fs path = (fs path \<noteq> None)"

definition read :: "filesystem \<Rightarrow> string \<Rightarrow> py_error + string" where
  "read fs path =
     (case fs path of
        None \<Rightarrow> Inl FileNotFoundError
      | Some Directory \<Rightarrow> Inl IsADirectoryError
      | Some (File content) \<Rightarrow> Inr content)"

definition find_links :: "string \<Rightarrow> string list" where
  "find_links content = findall_group True link_re content"

definition attr_has :: "string \<Rightarrow> string \<Rightarrow> bool" where
  "attr_has attrs name = re_search True (attr_re name) attrs"

text \<open>\<^verbatim>\<open>str.splitlines\<close>: a line ends at a line boundary, \<^verbatim>\<open>\r\n\<close> is one boundary, and
  a boundary at the very end opens no further line.\<close>

function splitlines :: "string \<Rightarrow> string list" where
  "splitlines s =
     (if s = [] then []
      else takeWhile (\<lambda>c. \<not> is_linebreak c) s #
        (case dropWhile (\<lambda>c. \<not> is_linebreak c) s of
           [] \<Rightarrow> []
         | c # cs \<Rightarrow>
             splitlines (if c = carriage_return
                         then (case cs of [] \<Rightarrow> cs | d # ds \<Rightarrow> if d = newline then ds else cs)
                         else cs)))"
  by pat_completeness auto
termination
proof (relation "measure length", goal_cases)
  case 1
  show ?case by simp
next
  case (2 s c cs)
  have "length (dropWhile (\<lambda>c. \<not> is_linebreak c) s) \<le> length s"
    by (rule length_dropWhile_le)
  with 2 have "length cs < length s" by simp
  moreover have "length (case cs of [] \<Rightarrow> cs | d # ds \<Rightarrow> if d = newline then ds else cs) \<le> length cs"
    by (cases cs) auto
  ultimately show ?case by auto
qed

declare splitlines.simps [simp del]

text \<open>\<^verbatim>\<open>str.strip()\<close>\<close>
definition strip :: "string \<Rightarrow> string" where
  "strip s = rev (dropWhile is_space (rev (dropWhile is_space s)))"

text \<open>The loop of \<^verbatim>\<open>check_unescaped_ampersands\<close> over \<^verbatim>\<open>enumerate(..., start=1)\<close>: the
  inner loop appends the line at the first match and breaks.\<close>

fun amp_loop :: "nat \<Rightarrow> string list \<Rightarrow> (nat \<times> string) list" where
  "amp_loop i [] = []"
| "amp_loop i (line # ls) =
     (case finditer False amp_re line of
        [] \<Rightarrow> amp_loop (Suc i) ls
      | m # _ \<Rightarrow> (i, strip line) # amp_loop (Suc i) ls)"

definition check_unescaped_ampersands :: "string \<Rightarrow> (nat \<times> string) list" where
  "check_unescaped_ampersands content = amp_loop 1 (splitlines content)"

text \<open>The decimal text of a number, as an f-string prints it.\<close>

fun show_nat :: "nat \<Rightarrow> string" where
  "show_nat n = (if n < 10 then [char_of (48 + n)]
                 else show_nat (n div 10) @ [char_of (48 + n mod 10)])"

declare show_nat.simps [simp del]

subsection \<open>The eight checks\<close>

type_synonym check_result = "string \<times> bool \<times> string"

definition passed :: "check_result \<Rightarrow> bool" where
  "passed r = fst (snd r)"

definition link_problems :: "string \<Rightarrow> string list" where
  "link_problems content =
     filter (\<lambda>attrs. \<not> attr_has attrs ''href'' \<or> \<not> attr_has attrs ''rel'') (find_links content)"

definition check1 :: "string \<Rightarrow> check_result" where
  "check1 content = (''DOCTYPE declaration present'', re_search True doctype_re content,
     ''Add <!DOCTYPE html> at top if missing.'')"

definition check2 :: "string \<Rightarrow> check_result" where
  "check2 content =
     (let html_open = findall_count True html_open_re content;
          html_close = findall_count True html_close_re content
      in (''Single <html> open/close'', html_open = 1 \<and> html_close = 1,
          ''Found <html> opens: '' @ show_nat html_open @ '', closes: '' @ show_nat html_close @ ''.''))"

definition check3 :: "string \<Rightarrow> check_result" where
  "check3 content = (''<html> has lang attribute'', re_search True lang_re content,
     ''Add lang='' @ [dquote] @ ''en'' @ [dquote]
       @ '' (or appropriate language) to the <html> tag for accessibility.'')"

definition check4 :: "string \<Rightarrow> check_result" where
  "check4 content =
     (let head_open = re_search True head_open_re content;
          head_close = re_search True head_close_re content
      in (''<head> present and closed'', head_open \<and> head_close,
          ''Ensure <head>...</head> exists and is properly closed.''))"

definition check5 :: "string \<Rightarrow> check_result" where
  "check5 content =
     (let body_open = findall_count True body_open_re content;
          body_close = findall_count True body_close_re content
      in (''<body> present and single closed'', body_open = 1 \<and> body_close = 1,
          ''Found <body> opens: '' @ show_nat body_open @ '', closes: '' @ show_nat body_close @ ''.''))"

definition check6 :: "string \<Rightarrow> check_result" where
  "check6 content =
     (let title_in_head = re_search True title_re content
      in (''<title> present inside <head>'', title_in_head,
          ''Add a <title> inside <head> to improve accessibility and SEO.''))"

definition check7 :: "string \<Rightarrow> check_result" where
  "check7 content =
     (''All <link> tags have href and rel'', length (link_problems content) = 0,
      ''Problematic <link> tags: '' @ show_nat (length (link_problems content)))"

definition check8 :: "string \<Rightarrow> check_result" where
  "check8 content =
     (let amps = check_unescaped_ampersands content
      in (''No unescaped ampersands'', length amps = 0,
          ''Found '' @ show_nat (length amps) @ '' line(s) with literal '' @ [squote] @ ''&''
            @ [squote] @ '' that may need escaping.''))"

text \<open>The body of \<^verbatim>\<open>run_checks\<close> after the file is read: the results in the order in
  which the source appends them, and the ampersand problems.\<close>

definition checks :: "string \<Rightarrow> check_result list \<times> (nat \<times> string) list" where
  "checks content =
     ([check1 content, check2 content, check3 content, check4 content, check5 content,
       check6 content, check7 content, check8 content],
      check_unescaped_ampersands content)"

definition run_checks ::
  "filesystem \<Rightarrow> string \<Rightarrow> py_error + (check_result list \<times> (nat \<times> string) list)" where
  "run_checks fs path =
     (case read fs path of Inl e \<Rightarrow> Inl e | Inr content \<Rightarrow> Inr (checks content))"

subsection \<open>The report and the entry flow\<close>

text \<open>Standard output is the list of the texts given to \<^verbatim>\<open>print\<close>, one element for each
  call.\<close>

definition result_lines :: "check_result \<Rightarrow> string list" where
  "result_lines r =
     (case r of (desc, ok, msg) \<Rightarrow>
        if ok then [''PASS: '' @ desc] else [''FAIL: '' @ desc, ''  -> '' @ msg])"

definition amp_line :: "nat \<times> string \<Rightarrow> string" where
  "amp_line a = (case a of (lineno, line) \<Rightarrow> ''  Line '' @ show_nat lineno @ '': '' @ line)"

definition print_report ::
  "string \<Rightarrow> check_result list \<Rightarrow> (nat \<times> string) list \<Rightarrow> string list" where
  "print_report path results amps =
     [''Validating: '' @ path @ [newline]]
     @ concat (map result_lines results)
     @ [newline # ''Summary:'',
        ''  '' @ show_nat (length (filter passed results)) @ ''/'' @ show_nat (length results)
          @ '' checks passed.'']
     @ (if amps \<noteq> []
        then (newline # ''Unescaped ampersand examples:'') # map amp_line (take 10 amps)
        else [])
     @ [newline # ''Notes: This is a lightweight local checker, not a full W3C validation. For full validation consider the W3C validator (validator.w3.org).'']"

definition default_path :: string where
  "default_path = ''c:'' @ [backslash] @ ''Users'' @ [backslash] @ ''bdavi'' @ [backslash]
     @ ''OneDrive'' @ [backslash] @ ''index.html'' @ [backslash] @ ''week03-ex01''
     @ [backslash] @ ''index.html week3 -ex01''"

text \<open>What a run leaves behind: the printed texts and the exit status, or an exception
  that nothing catches.\<close>

datatype outcome = Exit (stdout: "string list") (status: nat) | Uncaught py_error

definition target_path :: "string list \<Rightarrow> string" where
  "target_path argv = (if length argv > 1 then argv ! 1 else default_path)"

definition main :: "filesystem \<Rightarrow> string list \<Rightarrow> outcome" where
  "main fs argv =
     (let path = target_path argv
      in if \<not> exists fs path then Exit [''File not found: '' @ path] 2
         else (case run_checks fs path of
                 Inl e \<Rightarrow> Uncaught e
               | Inr (results, amps) \<Rightarrow>
                   Exit (print_report path results amps)
                        (if list_all passed results then 0 else 1)))"

definition minimal_doc :: string where
  \<open>minimal_doc = ''<!DOCTYPE html><html lang="en"><head><title>T</title></head><body></body></html>''\<close>

definition minimal_doc_without_doctype :: string where
  \<open>minimal_doc_without_doctype = ''<html lang="en"><head><title>T</title></head><body></body></html>''\<close>

section \<open>The vocabulary of the specification\<close>

text \<open>
  The specification describes the checks in terms of occurrences of a piece of text in
  the document. These predicates say the same in executable form, without patterns:
  \<open>starts_with_ci w xs\<close>: the text \<open>xs\<close> begins with \<open>w\<close>, up to the case of letters;
  \<open>somewhere P xs\<close>: \<open>P\<close> holds of the text from some position of \<open>xs\<close> on;
  \<open>somewhere_within Q P xs\<close>: \<open>P\<close> holds of the text from some position on that is
  reached over characters of the class \<open>Q\<close> only;
  \<open>count_where P xs\<close>: the number of positions of \<open>xs\<close> from which on \<open>P\<close> holds.
\<close>

definition ci_eq :: "string \<Rightarrow> string \<Rightarrow> bool" where
  "ci_eq a b = (map lower a = map lower b)"

definition starts_with_ci :: "string \<Rightarrow> string \<Rightarrow> bool" where
  "starts_with_ci w xs = (length w \<le> length xs \<and> ci_eq (take (length w) xs) w)"

fun somewhere :: "(string \<Rightarrow> bool) \<Rightarrow> string \<Rightarrow> bool" where
  "somewhere P [] = P []"
| "somewhere P (x # xs) = (P (x # xs) \<or> somewhere P xs)"

fun somewhere_within :: "(char \<Rightarrow> bool) \<Rightarrow> (string \<Rightarrow> bool) \<Rightarrow> string \<Rightarrow> bool" where
  "somewhere_within Q P [] = P []"
| "somewhere_within Q P (x # xs) = (P (x # xs) \<or> (Q x \<and> somewhere_within Q P xs))"

fun count_where :: "(string \<Rightarrow> bool) \<Rightarrow> string \<Rightarrow> nat" where
  "count_where P [] = (if P [] then 1 else 0)"
| "count_where P (x # xs) = (if P (x # xs) then 1 else 0) + count_where P xs"

text \<open>Check 2: \<open>w\<close> begins here and a word boundary follows it, that is, the next
  character is no letter, digit or underscore, or the text ends.\<close>

definition tag_start :: "string \<Rightarrow> string \<Rightarrow> bool" where
  "tag_start w s =
     (starts_with_ci w s \<and> (case drop (length w) s of [] \<Rightarrow> True | c # _ \<Rightarrow> \<not> is_word c))"

text \<open>Checks 3 and 7: after optional whitespace an \<^verbatim>\<open>=\<close>, optional whitespace, and a
  value between two double or two single quotes.\<close>

definition quoted_value :: "string \<Rightarrow> bool" where
  "quoted_value xs = (case xs of [] \<Rightarrow> False | q # v \<Rightarrow> (q = dquote \<or> q = squote) \<and> q \<in> set v)"

definition assignment_after :: "string \<Rightarrow> bool" where
  "assignment_after t =
     (case dropWhile is_space t of [] \<Rightarrow> False
      | c # u \<Rightarrow> c = CHR ''='' \<and> quoted_value (dropWhile is_space u))"

definition has_assignment :: "string \<Rightarrow> string \<Rightarrow> bool" where
  "has_assignment name attrs =
     somewhere (\<lambda>s. starts_with_ci name s \<and> assignment_after (drop (length name) s)) attrs"

text \<open>Check 3 as the specification words it: an \<^verbatim>\<open><html\<close> and, anywhere after it in the
  document, a \<^verbatim>\<open>lang\<close> assigned a quoted value.\<close>

definition spec_lang_attribute :: "string \<Rightarrow> bool" where
  "spec_lang_attribute content =
     somewhere (\<lambda>s. starts_with_ci ''<html'' s
        \<and> somewhere (\<lambda>t. starts_with_ci ''lang'' t \<and> assignment_after (drop (length ''lang'') t))
             (drop (length ''<html'') s)) content"

text \<open>Check 6: a \<^verbatim>\<open><title>\<close> whose \<^verbatim>\<open></title>\<close> comes before the next newline, and such
  a title somewhere after a \<^verbatim>\<open><head\<close>.\<close>

definition title_on_one_line :: "string \<Rightarrow> bool" where
  "title_on_one_line s =
     (starts_with_ci ''<title>'' s
      \<and> somewhere_within dot (starts_with_ci ''</title>'') (drop (length ''<title>'') s))"

definition title_after_head :: "string \<Rightarrow> bool" where
  "title_after_head content =
     somewhere (\<lambda>s. starts_with_ci ''<head'' s \<and> somewhere title_on_one_line (drop (length ''<head'') s)) content"


text \<open>Check 8: the body of a character reference (\<^verbatim>\<open>#\<close> and digits, \<^verbatim>\<open>#x\<close> and
  hexadecimal digits, or letters), a reference (a body and then \<^verbatim>\<open>;\<close>), and a line with
  an ampersand that starts no reference. The lines are numbered from 1.\<close>

definition entity_body :: "string \<Rightarrow> bool" where
  "entity_body b =
     ((case b of [] \<Rightarrow> False
       | c # ds \<Rightarrow> c = CHR ''#'' \<and> ds \<noteq> [] \<and> list_all is_ascii_digit ds)
      \<or> (case b of c # d # hs \<Rightarrow>
             c = CHR ''#'' \<and> d = CHR ''x'' \<and> hs \<noteq> [] \<and> list_all is_hex_digit hs
          | _ \<Rightarrow> False)
      \<or> (b \<noteq> [] \<and> list_all is_ascii_alpha b))"

definition entity_follows :: "string \<Rightarrow> bool" where
  "entity_follows zs =
     (let body = takeWhile (\<lambda>c. c \<noteq> CHR '';'') zs
      in length body < length zs \<and> entity_body body)"

definition bare_ampersand :: "string \<Rightarrow> bool" where
  "bare_ampersand line =
     somewhere (\<lambda>s. case s of [] \<Rightarrow> False | c # zs \<Rightarrow> c = CHR ''&'' \<and> \<not> entity_follows zs) line"

definition numbered_lines :: "string \<Rightarrow> (nat \<times> string) list" where
  "numbered_lines content = zip [1 ..< Suc (length (splitlines content))] (splitlines content)"

text \<open>Check 8 as the specification words it: the hexadecimal form may be written with
  \<^verbatim>\<open>#x\<close> or with \<^verbatim>\<open>#X\<close>.\<close>

definition spec_entity_body :: "string \<Rightarrow> bool" where
  "spec_entity_body b =
     ((case b of [] \<Rightarrow> False
       | c # ds \<Rightarrow> c = CHR ''#'' \<and> ds \<noteq> [] \<and> list_all is_ascii_digit ds)
      \<or> (case b of c # d # hs \<Rightarrow>
             c = CHR ''#'' \<and> (d = CHR ''x'' \<or> d = CHR ''X'') \<and> hs \<noteq> [] \<and> list_all is_hex_digit hs
          | _ \<Rightarrow> False)
      \<or> (b \<noteq> [] \<and> list_all is_ascii_alpha b))"

definition spec_bare_ampersand :: "string \<Rightarrow> bool" where
  "spec_bare_ampersand line =
     somewhere (\<lambda>s. case s of [] \<Rightarrow> False
        | c # zs \<Rightarrow> c = CHR ''&'' \<and>
            \<not> (let body = takeWhile (\<lambda>c. c \<noteq> CHR '';'') zs
               in length body < length zs \<and> spec_entity_body body)) line"

subsection \<open>Documents used as examples\<close>

definition doc_amp :: string where
  "doc_amp = ''  a & b '' @ [newline] @ ''&amp; &#169; &#x3C;'' @ [newline] @ ''&#X3C;''"

definition doc_links :: string where
  \<open>doc_links = ''<link REL="icon" href = "a.png"><p>x</p><link rel="stylesheet">''\<close>

definition doc_lang_later :: string where
  \<open>doc_lang_later = ''<html><body lang="en">''\<close>

definition doc_lang_newline :: string where
  "doc_lang_newline = ''<html lang='' @ [dquote] @ ''e'' @ [newline] @ ''n'' @ [dquote] @ ''>''"

definition doc_lang_second_tag :: string where
  \<open>doc_lang_second_tag = ''<html><HTML Lang ="en">''\<close>

definition doc_title_two_lines :: string where
  "doc_title_two_lines = ''<head><title>A'' @ [newline] @ ''B</title></head>''"

definition doc_title_attribute :: string where
  \<open>doc_title_attribute = ''<head><title lang="en">A</title></head>''\<close>

subsection \<open>Auxiliary notions of the proofs\<close>

text \<open>A match state written out; a pattern whose matches do not depend on the character
  before the position; and the two alternations of the source's patterns, named.\<close>

abbreviation St :: "char option \<Rightarrow> string \<Rightarrow> (nat \<times> string) list \<Rightarrow> mstate" where
  "St p xs g \<equiv> \<lparr>prev = p, rest = xs, groups = g\<rparr>"

definition prev_indep :: "bool \<Rightarrow> regex \<Rightarrow> bool" where
  "prev_indep ic r = (\<forall>p p' xs g. rmatch ic r (St p xs g) \<noteq> [] \<longleftrightarrow> rmatch ic r (St p' xs g) \<noteq> [])"

definition entity_alt :: regex where
  "entity_alt = Alt (Seq (Lit CHR ''#'') (Plus (Cls is_ascii_digit)))
                    (Alt (Seq (lits ''#x'') (Plus (Cls is_hex_digit)))
                         (Plus (Cls is_ascii_alpha)))"

definition quoted_alt :: regex where
  "quoted_alt = Alt (seqs [Lit dquote, Star (Cls (\<lambda>c. c \<noteq> dquote)), Lit dquote])
                    (seqs [Lit squote, Star (Cls (\<lambda>c. c \<noteq> squote)), Lit squote])"

declare rmatch.simps [simp del]
declare lits.simps [simp del]

section \<open>Properties of the matcher\<close>

text \<open>
  Each constructor of a pattern is characterised by the states it can reach; the states are written out as records.
\<close>

lemma consume_St [simp]: "consume [c] (St p (c # zs) g) = St (Some c) zs g"
  by (simp add: consume_def last_opt_def)

lemma mem_Lit:
  "t \<in> set (rmatch ic (Lit a) (St p xs g)) \<longleftrightarrow>
     (\<exists>c zs. xs = c # zs \<and> lit_eq ic a c \<and> t = St (Some c) zs g)"
  by (cases xs) (auto simp: rmatch.simps(2))

lemma mem_Cls:
  "t \<in> set (rmatch ic (Cls P) (St p xs g)) \<longleftrightarrow>
     (\<exists>c zs. xs = c # zs \<and> P c \<and> t = St (Some c) zs g)"
  by (cases xs) (auto simp: rmatch.simps(3))

lemma mem_Seq:
  "t \<in> set (rmatch ic (Seq r1 r2) s) \<longleftrightarrow>
     (\<exists>u. u \<in> set (rmatch ic r1 s) \<and> t \<in> set (rmatch ic r2 u))"
  by (auto simp: rmatch.simps(4))

lemma last_opt_Cons: "last_opt p (c # w) = last_opt (Some c) w"
  by (simp add: last_opt_def)


lemma mem_lits:
  "t \<in> set (rmatch ic (lits w) (St p xs g)) \<longleftrightarrow>
     (\<exists>w' zs. xs = w' @ zs \<and> list_all2 (lit_eq ic) w w' \<and> t = St (last_opt p w') zs g)"
proof (induction w arbitrary: p xs)
  case Nil
  show ?case by (auto simp: last_opt_def rmatch.simps(1) lits.simps)
next
  case (Cons a w)
  show ?case (is "?L = ?R")
  proof
    assume ?L
    then obtain c zs where 1: "xs = c # zs" "lit_eq ic a c"
        and 2: "t \<in> set (rmatch ic (lits w) (St (Some c) zs g))"
      by (auto simp: lits.simps mem_Seq mem_Lit)
    from 2 obtain w' zs' where "zs = w' @ zs'" "list_all2 (lit_eq ic) w w'"
        "t = St (last_opt (Some c) w') zs' g"
      unfolding Cons.IH by blast
    with 1 have "xs = (c # w') @ zs' \<and> list_all2 (lit_eq ic) (a # w) (c # w')
        \<and> t = St (last_opt p (c # w')) zs' g"
      by (simp add: last_opt_Cons)
    then show ?R by blast
  next
    assume ?R
    then obtain w' zs where 1: "xs = w' @ zs" "list_all2 (lit_eq ic) (a # w) w'"
        "t = St (last_opt p w') zs g"
      by blast
    then obtain c w'' where 2: "w' = c # w''" "lit_eq ic a c" "list_all2 (lit_eq ic) w w''"
      by (auto simp: list_all2_Cons1)
    have "t \<in> set (rmatch ic (lits w) (St (Some c) (w'' @ zs) g))"
      unfolding Cons.IH using 1 2 by (auto simp: last_opt_Cons)
    then show ?L
      using 1 2 by (auto simp: lits.simps mem_Seq mem_Lit)
  qed
qed

lemma Star_Cls_unfold:
  "rmatch ic (Star (Cls P)) (St p xs g) =
     (case xs of [] \<Rightarrow> [St p [] g]
      | c # zs \<Rightarrow> if P c then rmatch ic (Star (Cls P)) (St (Some c) zs g) @ [St p xs g]
                  else [St p xs g])"
  by (subst rmatch.simps(6)) (simp add: rmatch.simps(3) split: list.splits)

lemma LazyStar_Cls_unfold:
  "rmatch ic (LazyStar (Cls P)) (St p xs g) =
     (case xs of [] \<Rightarrow> [St p [] g]
      | c # zs \<Rightarrow> if P c then St p xs g # rmatch ic (LazyStar (Cls P)) (St (Some c) zs g)
                  else [St p xs g])"
  by (subst rmatch.simps(7)) (simp add: rmatch.simps(3) split: list.splits)

lemma mem_Star_Cls:
  "t \<in> set (rmatch ic (Star (Cls P)) (St p xs g)) \<longleftrightarrow>
     (\<exists>ys zs. xs = ys @ zs \<and> (\<forall>y \<in> set ys. P y) \<and> t = St (last_opt p ys) zs g)"
proof (induction xs arbitrary: p)
  case Nil
  show ?case by (subst Star_Cls_unfold) (auto simp: last_opt_def)
next
  case (Cons c xs)
  show ?case (is "?L = ?R")
  proof
    assume ?L
    then consider "t = St p (c # xs) g"
      | "P c" "t \<in> set (rmatch ic (Star (Cls P)) (St (Some c) xs g))"
      by (subst (asm) Star_Cls_unfold) (auto split: if_splits)
    then show ?R
    proof cases
      case 1
      then have "c # xs = [] @ (c # xs) \<and> (\<forall>y \<in> set []. P y) \<and> t = St (last_opt p []) (c # xs) g"
        by (simp add: last_opt_def)
      then show ?thesis by blast
    next
      case 2
      then obtain ys zs where "xs = ys @ zs" "\<forall>y \<in> set ys. P y" "t = St (last_opt (Some c) ys) zs g"
        unfolding Cons.IH by blast
      with 2 have "c # xs = (c # ys) @ zs \<and> (\<forall>y \<in> set (c # ys). P y)
          \<and> t = St (last_opt p (c # ys)) zs g"
        by (simp add: last_opt_Cons)
      then show ?thesis by blast
    qed
  next
    assume ?R
    then obtain ys zs where 1: "c # xs = ys @ zs" "\<forall>y \<in> set ys. P y" "t = St (last_opt p ys) zs g"
      by blast
    show ?L
    proof (cases ys)
      case Nil
      with 1 have "t = St p (c # xs) g" by (auto simp: last_opt_def)
      then show ?thesis
        by (subst Star_Cls_unfold) simp
    next
      case (Cons y ys')
      with 1 have 2: "y = c" "xs = ys' @ zs" "P c" "\<forall>y \<in> set ys'. P y"
          "t = St (last_opt (Some c) ys') zs g"
        by (auto simp: last_opt_Cons)
      then have "t \<in> set (rmatch ic (Star (Cls P)) (St (Some c) xs g))"
        unfolding Cons.IH by blast
      with 2 show ?thesis
        by (subst Star_Cls_unfold) simp
    qed
  qed
qed

lemma set_LazyStar_Cls:
  "set (rmatch ic (LazyStar (Cls P)) (St p xs g)) = set (rmatch ic (Star (Cls P)) (St p xs g))"
proof (induction xs arbitrary: p)
  case Nil
  show ?case by (subst Star_Cls_unfold, subst LazyStar_Cls_unfold) simp
next
  case (Cons c xs)
  show ?case
    by (subst Star_Cls_unfold, subst LazyStar_Cls_unfold) (auto simp: Cons.IH)
qed

lemma mem_LazyStar_Cls:
  "t \<in> set (rmatch ic (LazyStar (Cls P)) (St p xs g)) \<longleftrightarrow>
     (\<exists>ys zs. xs = ys @ zs \<and> (\<forall>y \<in> set ys. P y) \<and> t = St (last_opt p ys) zs g)"
  by (simp only: set_LazyStar_Cls mem_Star_Cls)

lemma mem_Plus_Cls:
  "t \<in> set (rmatch ic (Plus (Cls P)) (St p xs g)) \<longleftrightarrow>
     (\<exists>ys zs. xs = ys @ zs \<and> ys \<noteq> [] \<and> (\<forall>y \<in> set ys. P y) \<and> t = St (last_opt p ys) zs g)"
  (is "?L = ?R")
proof
  assume ?L
  then obtain c zs where 1: "xs = c # zs" "P c"
      and 2: "t \<in> set (rmatch ic (Star (Cls P)) (St (Some c) zs g))"
    unfolding Plus_def by (auto simp: mem_Seq mem_Cls)
  from 2 obtain ys zs' where "zs = ys @ zs'" "\<forall>y \<in> set ys. P y" "t = St (last_opt (Some c) ys) zs' g"
    unfolding mem_Star_Cls by blast
  with 1 have "xs = (c # ys) @ zs' \<and> c # ys \<noteq> [] \<and> (\<forall>y \<in> set (c # ys). P y)
      \<and> t = St (last_opt p (c # ys)) zs' g"
    by (simp add: last_opt_Cons)
  then show ?R by blast
next
  assume ?R
  then obtain ys zs where 1: "xs = ys @ zs" "ys \<noteq> []" "\<forall>y \<in> set ys. P y" "t = St (last_opt p ys) zs g"
    by blast
  then obtain c ys' where 2: "ys = c # ys'" by (cases ys) auto
  with 1 have "t \<in> set (rmatch ic (Star (Cls P)) (St (Some c) (ys' @ zs) g))"
    unfolding mem_Star_Cls by (auto simp: last_opt_Cons)
  with 1 2 show ?L
    unfolding Plus_def by (auto simp: mem_Seq mem_Cls)
qed

lemma mem_WordB:
  "t \<in> set (rmatch ic WordB s) \<longleftrightarrow> (at_boundary s \<and> t = s)"
  by (auto simp: rmatch.simps(8))

lemma mem_Alt:
  "t \<in> set (rmatch ic (Alt r1 r2) s) \<longleftrightarrow>
     (t \<in> set (rmatch ic r1 s) \<or> t \<in> set (rmatch ic r2 s))"
  by (auto simp: rmatch.simps(5))

lemma mem_Eps: "t \<in> set (rmatch ic Eps s) \<longleftrightarrow> t = s"
  by (auto simp: rmatch.simps(1))

lemma mem_Group:
  "t \<in> set (rmatch ic (Group n r) s) \<longleftrightarrow>
     (\<exists>u. u \<in> set (rmatch ic r s)
        \<and> t = u\<lparr>groups := (n, take (length (rest s) - length (rest u)) (rest s)) # groups u\<rparr>)"
  by (auto simp: rmatch.simps(9))

lemma nonempty_iff_mem: "l \<noteq> [] \<longleftrightarrow> (\<exists>t. t \<in> set l)"
  by (cases l) auto

lemma ok_Seq:
  "rmatch ic (Seq r1 r2) s \<noteq> [] \<longleftrightarrow> (\<exists>u. u \<in> set (rmatch ic r1 s) \<and> rmatch ic r2 u \<noteq> [])"
  by (auto simp: rmatch.simps(4))

lemma ok_SeqI:
  "u \<in> set (rmatch ic r1 s) \<Longrightarrow> rmatch ic r2 u \<noteq> [] \<Longrightarrow> rmatch ic (Seq r1 r2) s \<noteq> []"
  unfolding ok_Seq by blast

lemma ok_Lit:
  "rmatch ic (Lit a) s \<noteq> [] \<longleftrightarrow> (\<exists>c zs. rest s = c # zs \<and> lit_eq ic a c)"
  by (simp add: rmatch.simps(2) split: list.splits)

lemma ok_Seq_Lit:
  "rmatch ic (Seq (Lit a) r) (St p xs g) \<noteq> [] \<longleftrightarrow>
     (case xs of [] \<Rightarrow> False | c # zs \<Rightarrow> lit_eq ic a c \<and> rmatch ic r (St (Some c) zs g) \<noteq> [])"
  unfolding ok_Seq mem_Lit by (cases xs) auto

lemma no_Seq_Lit:
  "\<not> lit_eq ic a c \<Longrightarrow> rmatch ic (Seq (Lit a) r) (St p (c # zs) g) = []"
  by (simp add: rmatch.simps(2,4))

lemma ok_Seq_Eps: "rmatch ic (Seq r Eps) s \<noteq> [] \<longleftrightarrow> rmatch ic r s \<noteq> []"
  unfolding ok_Seq by (auto simp: rmatch.simps(1) nonempty_iff_mem)

lemma ok_Group: "rmatch ic (Group n r) s \<noteq> [] \<longleftrightarrow> rmatch ic r s \<noteq> []"
  by (simp add: rmatch.simps(9))

lemma ok_Alt: "rmatch ic (Alt r1 r2) s \<noteq> [] \<longleftrightarrow> rmatch ic r1 s \<noteq> [] \<or> rmatch ic r2 s \<noteq> []"
  by (simp add: rmatch.simps(5))

lemma ok_Eps: "rmatch ic Eps s \<noteq> []"
  by (simp add: rmatch.simps(1))


section \<open>Searching and iterating\<close>

text \<open>
  A search succeeds exactly when the pattern matches at some split of the text; every match that the iteration reports is a match of the pattern at some split, and the iteration reports none exactly when the search fails.
\<close>

lemma search_from_iff:
  "search_from ic r p cs \<longleftrightarrow>
     (\<exists>pre post. cs = pre @ post \<and> rmatch ic r (St (last_opt p pre) post []) \<noteq> [])"
proof (induction cs arbitrary: p)
  case Nil
  show ?case by (simp add: last_opt_def)
next
  case (Cons c cs)
  show ?case (is "?L = ?R")
  proof
    assume ?L
    then consider "rmatch ic r (St p (c # cs) []) \<noteq> []" | "search_from ic r (Some c) cs"
      by auto
    then show ?R
    proof cases
      case 1
      then have "c # cs = [] @ (c # cs) \<and> rmatch ic r (St (last_opt p []) (c # cs) []) \<noteq> []"
        by (simp add: last_opt_def)
      then show ?thesis by blast
    next
      case 2
      then obtain pre post where "cs = pre @ post" "rmatch ic r (St (last_opt (Some c) pre) post []) \<noteq> []"
        unfolding Cons.IH by blast
      then have "c # cs = (c # pre) @ post \<and> rmatch ic r (St (last_opt p (c # pre)) post []) \<noteq> []"
        by (simp add: last_opt_Cons)
      then show ?thesis by blast
    qed
  next
    assume ?R
    then obtain pre post where 1: "c # cs = pre @ post" "rmatch ic r (St (last_opt p pre) post []) \<noteq> []"
      by blast
    show ?L
    proof (cases pre)
      case Nil
      with 1 have "rmatch ic r (St p (c # cs) []) \<noteq> []" by (auto simp: last_opt_def)
      then show ?thesis by simp
    next
      case (Cons a pre')
      with 1 have "cs = pre' @ post" "rmatch ic r (St (last_opt (Some c) pre') post []) \<noteq> []"
        by (auto simp: last_opt_Cons)
      then have "search_from ic r (Some c) cs"
        unfolding Cons.IH by blast
      then show ?thesis by simp
    qed
  qed
qed

lemma finditer_from_Nil_iff:
  "finditer_from ic r p cs = [] \<longleftrightarrow> \<not> search_from ic r p cs"
proof (induction cs arbitrary: p)
  case Nil
  show ?case
    by (simp add: finditer_from.simps [of ic r p "[]"] split: list.splits)
next
  case (Cons c cs)
  show ?case
    by (simp add: finditer_from.simps [of ic r p "c # cs"] Cons.IH split: list.splits)
qed


section \<open>Properties of the character classes\<close>

lemma code_less: "code c < 256"
proof -
  have "of_char c mod 256 = (of_char c :: nat)" by (rule of_char_mod_256)
  then show ?thesis
    unfolding code_def by (metis mod_less_divisor zero_less_numeral)
qed

lemma code_char_of: "n < 256 \<Longrightarrow> code (char_of n) = n"
  by (simp add: code_def)

lemma code_eq_iff: "code a = code b \<longleftrightarrow> a = b"
  by (simp add: code_def)

lemma code_lower:
  "code (lower c) =
     (if (65 \<le> code c \<and> code c \<le> 90) \<or> (192 \<le> code c \<and> code c \<le> 222 \<and> code c \<noteq> 215)
      then code c + 32 else code c)"
  by (auto simp: lower_def code_char_of)

lemma is_word_lower: "is_word (lower c) = is_word c"
  unfolding is_word_def is_ascii_digit_def is_ascii_alpha_def code_lower
  using code_less [of c] by (auto split: if_splits)

lemma code_simps [simp]:
  "code CHR ''#'' = 35" "code CHR '';'' = 59" "code CHR ''x'' = 120" "code CHR ''&'' = 38"
  by (simp_all add: code_def)

lemma symbol_codes [simp]:
  "code CHR ''>'' = 62" "code CHR ''='' = 61" "code dquote = 34" "code squote = 39"
  "code backslash = 92" "code newline = 10"
  by (simp_all add: code_def dquote_def squote_def backslash_def newline_def)

lemma semicolon_not_in_class [simp]:
  "\<not> is_ascii_digit CHR '';''" "\<not> is_hex_digit CHR '';''" "\<not> is_ascii_alpha CHR '';''"
  by (simp_all add: is_ascii_digit_def is_hex_digit_def is_ascii_alpha_def)

lemma not_space_symbols [simp]:
  "\<not> is_space CHR ''=''" "\<not> is_space dquote" "\<not> is_space squote"
  by (simp_all add: is_space_def)

lemma lit_eq_symbol:
  assumes "code a < 65 \<or> (90 < code a \<and> code a < 97)"
  shows "lit_eq ic a c \<longleftrightarrow> c = a"
proof (cases ic)
  case False
  then show ?thesis by (auto simp: lit_eq_def)
next
  case True
  have "code (lower a) = code (lower c) \<longleftrightarrow> code a = code c"
    using assms unfolding code_lower by (auto split: if_splits)
  then show ?thesis
    using True by (auto simp: lit_eq_def code_eq_iff)
qed

lemma list_all2_lit_eq_True: "list_all2 (lit_eq True) w w' \<longleftrightarrow> ci_eq w' w"
  by (induction w arbitrary: w') (auto simp: ci_eq_def lit_eq_def list_all2_Cons1)

lemma list_all2_lit_eq_False: "list_all2 (lit_eq False) w w' \<longleftrightarrow> w' = w"
  by (induction w arbitrary: w') (auto simp: lit_eq_def list_all2_Cons1)

lemma ci_eq_length: "ci_eq a b \<Longrightarrow> length a = length b"
  unfolding ci_eq_def by (rule map_eq_imp_length_eq)

lemma last_ci_eq: "ci_eq a b \<Longrightarrow> a \<noteq> [] \<Longrightarrow> lower (last a) = lower (last b)"
  unfolding ci_eq_def by (metis last_map map_is_Nil_conv)

lemma is_word_first_ci:
  assumes "ci_eq l (a # w)" "is_word a"
  shows "\<exists>c l'. l = c # l' \<and> is_word c"
proof -
  from assms(1) obtain c l' where l: "l = c # l'" "lower c = lower a"
    by (cases l) (auto simp: ci_eq_def)
  then have "is_word c" using assms(2) is_word_lower by metis
  with l show ?thesis by blast
qed

section \<open>Properties of the vocabulary\<close>

lemma starts_with_ci_iff:
  "starts_with_ci w xs \<longleftrightarrow> (\<exists>w' zs. xs = w' @ zs \<and> ci_eq w' w)"
proof
  assume "starts_with_ci w xs"
  then have "xs = take (length w) xs @ drop (length w) xs \<and> ci_eq (take (length w) xs) w"
    by (simp add: starts_with_ci_def)
  then show "\<exists>w' zs. xs = w' @ zs \<and> ci_eq w' w" by blast
next
  assume "\<exists>w' zs. xs = w' @ zs \<and> ci_eq w' w"
  then obtain w' zs where 1: "xs = w' @ zs" "ci_eq w' w" by blast
  then have "length w' = length w" by (simp add: ci_eq_length)
  with 1 show "starts_with_ci w xs" by (simp add: starts_with_ci_def)
qed

lemma starts_with_ci_nth:
  assumes "starts_with_ci w xs" "k < length w"
  shows "lower (xs ! k) = lower (w ! k)"
proof -
  from assms have "map lower (take (length w) xs) ! k = map lower w ! k"
    by (simp add: starts_with_ci_def ci_eq_def)
  with assms show ?thesis
    by (simp add: starts_with_ci_def)
qed

lemma starts_no_overlap:
  assumes w: "w = a # w'" and diff: "\<forall>b \<in> set w'. lower b \<noteq> lower a"
    and s: "starts_with_ci w xs" and k: "0 < k" "k < length w"
  shows "\<not> starts_with_ci w (drop k xs)"
proof
  assume s': "starts_with_ci w (drop k xs)"
  have "length w \<le> length xs" using s by (simp add: starts_with_ci_def)
  with k have kx: "k < length xs" by simp
  have "lower (drop k xs ! 0) = lower (w ! 0)"
    using s' w by (intro starts_with_ci_nth) simp_all
  with kx w have "lower (xs ! k) = lower a" by simp
  moreover have "lower (xs ! k) = lower (w ! k)"
    using s k by (intro starts_with_ci_nth)
  moreover have "w ! k \<in> set w'"
    using w k by (cases k) auto
  ultimately show False using diff by metis
qed

lemma somewhere_iff: "somewhere P xs \<longleftrightarrow> (\<exists>pre post. xs = pre @ post \<and> P post)"
proof (induction xs)
  case Nil
  show ?case by simp
next
  case (Cons x xs)
  show ?case
    by (auto simp: Cons.IH Cons_eq_append_conv)
qed

lemma somewhere_within_iff:
  "somewhere_within Q P xs \<longleftrightarrow> (\<exists>ys zs. xs = ys @ zs \<and> (\<forall>y \<in> set ys. Q y) \<and> P zs)"
proof (induction xs)
  case Nil
  show ?case by simp
next
  case (Cons x xs)
  show ?case (is "?L = ?R")
  proof
    assume ?L
    then consider "P (x # xs)" | "Q x" "somewhere_within Q P xs" by auto
    then show ?R
    proof cases
      case 1
      then have "x # xs = [] @ (x # xs) \<and> (\<forall>y \<in> set []. Q y) \<and> P (x # xs)" by simp
      then show ?thesis by blast
    next
      case 2
      then obtain ys zs where "xs = ys @ zs" "\<forall>y \<in> set ys. Q y" "P zs"
        unfolding Cons.IH by blast
      with 2 have "x # xs = (x # ys) @ zs \<and> (\<forall>y \<in> set (x # ys). Q y) \<and> P zs" by simp
      then show ?thesis by blast
    qed
  next
    assume ?R
    then obtain ys zs where 1: "x # xs = ys @ zs" "\<forall>y \<in> set ys. Q y" "P zs" by blast
    show ?L
    proof (cases ys)
      case Nil
      with 1 show ?thesis by auto
    next
      case (Cons y ys')
      with 1 have "Q x" "xs = ys' @ zs \<and> (\<forall>y \<in> set ys'. Q y) \<and> P zs" by auto
      then show ?thesis unfolding somewhere_within.simps Cons.IH by blast
    qed
  qed
qed

lemma somewhere_within_any: "somewhere_within any_char P xs = somewhere P xs"
  by (induction xs) (auto simp: any_char_def)

lemma somewhere_within_run:
  assumes "\<And>c zs. Q c \<Longrightarrow> \<not> F (c # zs)"
  shows "somewhere_within Q F xs = F (dropWhile Q xs)"
  using assms by (induction xs) auto

lemma count_where_skip:
  "(\<And>k. k < m \<Longrightarrow> \<not> F (drop k ys)) \<Longrightarrow> m \<le> length ys \<Longrightarrow>
     count_where F ys = count_where F (drop m ys)"
proof (induction m arbitrary: ys)
  case 0
  show ?case by simp
next
  case (Suc m)
  then obtain y ys' where ys: "ys = y # ys'" by (cases ys) auto
  have "\<not> F ys" using Suc.prems(1) [of 0] by simp
  moreover have "count_where F ys' = count_where F (drop m ys')"
  proof (rule Suc.IH)
    fix k assume "k < m"
    then show "\<not> F (drop k ys')" using Suc.prems(1) [of "Suc k"] ys by simp
  next
    show "m \<le> length ys'" using Suc.prems(2) ys by simp
  qed
  ultimately show ?case using ys by simp
qed

lemma count_where_match:
  assumes "F xs" "0 < n" "n \<le> length xs"
    and "\<And>k. 0 < k \<Longrightarrow> k < n \<Longrightarrow> \<not> F (drop k xs)"
  shows "count_where F xs = Suc (count_where F (drop n xs))"
proof -
  from assms obtain x xs' where xs: "xs = x # xs'" by (cases xs) auto
  obtain m where n: "n = Suc m" using assms(2) by (cases n) auto
  have "count_where F xs' = count_where F (drop m xs')"
  proof (rule count_where_skip)
    fix k assume "k < m"
    then show "\<not> F (drop k xs')" using assms(4) [of "Suc k"] xs n by simp
  next
    show "m \<le> length xs'" using assms(3) xs n by simp
  qed
  then show ?thesis using assms(1) xs n by simp
qed

section \<open>Literal text, runs of a class and patterns that ignore the previous character\<close>

lemma ok_Seq_lits:
  "rmatch True (Seq (lits w) r) (St p xs g) \<noteq> [] \<longleftrightarrow>
     (starts_with_ci w xs
      \<and> rmatch True r (St (last_opt p (take (length w) xs)) (drop (length w) xs) g) \<noteq> [])"
  (is "?L = ?R")
proof
  assume ?L
  then obtain w' zs where 1: "xs = w' @ zs" "ci_eq w' w"
      and 2: "rmatch True r (St (last_opt p w') zs g) \<noteq> []"
    unfolding ok_Seq mem_lits list_all2_lit_eq_True by blast
  from 1 have "length w' = length w" by (simp add: ci_eq_length)
  with 1 2 show ?R
    by (simp add: starts_with_ci_def)
next
  assume ?R
  then have "xs = take (length w) xs @ drop (length w) xs \<and> ci_eq (take (length w) xs) w
      \<and> rmatch True r (St (last_opt p (take (length w) xs)) (drop (length w) xs) g) \<noteq> []"
    by (simp add: starts_with_ci_def)
  then show ?L
    unfolding ok_Seq mem_lits list_all2_lit_eq_True by blast
qed

lemma prev_indep_lits: "w \<noteq> [] \<Longrightarrow> prev_indep True (Seq (lits w) r)"
  unfolding prev_indep_def ok_Seq_lits
  by (auto simp: starts_with_ci_def last_opt_def)

lemma prev_indepD:
  "prev_indep ic r \<Longrightarrow> rmatch ic r (St p xs g) \<noteq> [] \<longleftrightarrow> rmatch ic r (St None xs g) \<noteq> []"
  unfolding prev_indep_def by blast

lemma prev_indep_Lit: "prev_indep ic (Seq (Lit a) r)"
  unfolding prev_indep_def ok_Seq_Lit by simp

lemma ok_Seq_LazyStar_Cls:
  assumes "prev_indep ic r"
  shows "rmatch ic (Seq (LazyStar (Cls Q)) r) (St p xs g) \<noteq> [] \<longleftrightarrow>
     somewhere_within Q (\<lambda>zs. rmatch ic r (St None zs g) \<noteq> []) xs"
  unfolding ok_Seq mem_LazyStar_Cls somewhere_within_iff
  using prev_indepD [OF assms] by blast

lemma ok_Seq_Star_Cls:
  assumes "prev_indep ic r"
  shows "rmatch ic (Seq (Star (Cls Q)) r) (St p xs g) \<noteq> [] \<longleftrightarrow>
     somewhere_within Q (\<lambda>zs. rmatch ic r (St None zs g) \<noteq> []) xs"
  unfolding ok_Seq mem_Star_Cls somewhere_within_iff
  using prev_indepD [OF assms] by blast

lemma ok_Star_run:
  assumes "prev_indep ic r" and "\<And>c zs g. Q c \<Longrightarrow> rmatch ic r (St None (c # zs) g) = []"
  shows "rmatch ic (Seq (Star (Cls Q)) r) (St p xs g) \<noteq> [] \<longleftrightarrow>
     rmatch ic r (St None (dropWhile Q xs) g) \<noteq> []"
  unfolding ok_Seq_Star_Cls [OF assms(1)]
  by (rule somewhere_within_run) (simp add: assms(2))

lemma re_search_prev_indep:
  assumes "prev_indep ic r"
  shows "re_search ic r content \<longleftrightarrow> somewhere (\<lambda>post. rmatch ic r (St None post []) \<noteq> []) content"
  unfolding re_search_def search_from_iff somewhere_iff
  using prev_indepD [OF assms] by blast

lemma rmatch_lits_eq:
  "rmatch ic (lits w) (St p xs g) =
     (if length w \<le> length xs \<and> list_all2 (lit_eq ic) w (take (length w) xs)
      then [St (last_opt p (take (length w) xs)) (drop (length w) xs) g] else [])"
proof (induction w arbitrary: p xs)
  case Nil
  show ?case by (simp add: lits.simps rmatch.simps(1) last_opt_def)
next
  case (Cons a w)
  show ?case
  proof (cases xs)
    case Nil
    then show ?thesis by (simp add: lits.simps rmatch.simps(2,4))
  next
    case (Cons c zs)
    then show ?thesis
      by (simp add: lits.simps rmatch.simps(2,4) Cons.IH last_opt_Cons)
  qed
qed

lemma rmatch_lits_ci:
  "rmatch True (lits w) (St p xs g) =
     (if starts_with_ci w xs
      then [St (last_opt p (take (length w) xs)) (drop (length w) xs) g] else [])"
  unfolding rmatch_lits_eq list_all2_lit_eq_True starts_with_ci_def by simp

lemma rmatch_lits_ci_nonempty:
  assumes "w \<noteq> []"
  shows "rmatch True (lits w) (St p xs g) =
     (if starts_with_ci w xs
      then [St (Some (last (take (length w) xs))) (drop (length w) xs) g] else [])"
proof -
  have "starts_with_ci w xs \<Longrightarrow> take (length w) xs \<noteq> []"
    using assms by (auto simp: starts_with_ci_def)
  then show ?thesis
    unfolding rmatch_lits_ci by (simp add: last_opt_def)
qed

lemma rmatch_tag_open:
  assumes "w \<noteq> []" "is_word (last w)"
  shows "rmatch True (Seq (lits w) WordB) (St p xs g) =
     (if tag_start w xs
      then [St (Some (last (take (length w) xs))) (drop (length w) xs) g] else [])"
proof (cases "starts_with_ci w xs")
  case False
  then show ?thesis
    by (simp add: rmatch.simps(4) rmatch_lits_ci tag_start_def)
next
  case True
  let ?t = "take (length w) xs"
  from True have ci: "ci_eq ?t w" and ne: "?t \<noteq> []"
    using assms(1) by (auto simp: starts_with_ci_def)
  have "is_word (last ?t)"
    using last_ci_eq [OF ci ne] assms(2) is_word_lower by metis
  then have "at_boundary (St (Some (last ?t)) (drop (length w) xs) g)
      \<longleftrightarrow> (case drop (length w) xs of [] \<Rightarrow> True | c # _ \<Rightarrow> \<not> is_word c)"
    by (simp add: at_boundary_def split: list.splits)
  then show ?thesis
    using True ne by (simp add: rmatch.simps(4,8) rmatch_lits_ci tag_start_def last_opt_def)
qed

lemma finditer_count:
  assumes det: "\<And>p xs. rmatch ic r (St p xs []) = (if F xs then [St (pv xs) (drop n xs) (gv xs)] else [])"
    and n: "0 < n"
    and len: "\<And>xs. F xs \<Longrightarrow> n \<le> length xs"
    and noov: "\<And>xs k. F xs \<Longrightarrow> 0 < k \<Longrightarrow> k < n \<Longrightarrow> \<not> F (drop k xs)"
  shows "length (finditer_from ic r p xs) = count_where F xs"
proof (induction "length xs" arbitrary: xs p rule: less_induct)
  case less
  show ?case
  proof (cases "F xs")
    case True
    then have l: "n \<le> length xs" by (rule len)
    with n have shorter: "length (drop n xs) < length xs" by simp
    have "finditer_from ic r p xs
        = St (pv xs) (drop n xs) (gv xs) # finditer_from ic r (pv xs) (drop n xs)"
      using True shorter by (simp add: finditer_from.simps [of ic r p xs] det)
    moreover have "length (finditer_from ic r (pv xs) (drop n xs)) = count_where F (drop n xs)"
      using shorter by (rule less.hyps)
    moreover have "count_where F xs = Suc (count_where F (drop n xs))"
      using True n l noov [OF True] by (rule count_where_match)
    ultimately show ?thesis by simp
  next
    case False
    show ?thesis
    proof (cases xs)
      case Nil
      with False show ?thesis
        by (simp add: finditer_from.simps [of ic r p "[]"] det)
    next
      case (Cons c cs)
      then have "length (finditer_from ic r (Some c) cs) = count_where F cs"
        using less.hyps [of cs "Some c"] by simp
      with False Cons show ?thesis
        by (simp add: finditer_from.simps [of ic r p "c # cs"] det)
    qed
  qed
qed

lemma tag_start_no_overlap:
  assumes "w = a # w'" "\<forall>b \<in> set w'. lower b \<noteq> lower a"
    and "tag_start w xs" "0 < k" "k < length w"
  shows "\<not> tag_start w (drop k xs)"
  using starts_no_overlap [OF assms(1,2) _ assms(4,5)] assms(3)
  by (simp add: tag_start_def)

lemma count_tag_open:
  assumes "w = a # w'" "\<forall>b \<in> set w'. lower b \<noteq> lower a" "is_word (last w)"
  shows "findall_count True (Seq (lits w) WordB) content = count_where (tag_start w) content"
  unfolding findall_count_def finditer_def
proof (rule finditer_count [where n = "length w"
      and pv = "\<lambda>xs. Some (last (take (length w) xs))" and gv = "\<lambda>xs. []"])
  show "rmatch True (Seq (lits w) WordB) (St p xs []) =
      (if tag_start w xs then [St (Some (last (take (length w) xs))) (drop (length w) xs) []] else [])"
    for p xs
    using assms by (intro rmatch_tag_open) simp_all
  show "0 < length w" using assms by simp
  show "length w \<le> length xs" if "tag_start w xs" for xs
    using that by (simp add: tag_start_def starts_with_ci_def)
  show "\<not> tag_start w (drop k xs)" if "tag_start w xs" "0 < k" "k < length w" for xs k
    using assms(1,2) that by (rule tag_start_no_overlap)
qed

lemma count_tag_close:
  assumes "w = a # w'" "\<forall>b \<in> set w'. lower b \<noteq> lower a"
  shows "findall_count True (lits w) content = count_where (starts_with_ci w) content"
  unfolding findall_count_def finditer_def
proof (rule finditer_count [where n = "length w"
      and pv = "\<lambda>xs. Some (last (take (length w) xs))" and gv = "\<lambda>xs. []"])
  show "rmatch True (lits w) (St p xs []) =
      (if starts_with_ci w xs then [St (Some (last (take (length w) xs))) (drop (length w) xs) []] else [])"
    for p xs
    using assms by (intro rmatch_lits_ci_nonempty) simp
  show "0 < length w" using assms by simp
  show "length w \<le> length xs" if "starts_with_ci w xs" for xs
    using that by (simp add: starts_with_ci_def)
  show "\<not> starts_with_ci w (drop k xs)" if "starts_with_ci w xs" "0 < k" "k < length w" for xs k
    using assms(1,2) that by (rule starts_no_overlap)
qed

section \<open>Properties of the entry flow and the report\<close>

lemma length_checks: "length (fst (checks content)) = 8"
  by (simp add: checks_def)

lemma main_on_file:
  assumes "fs (target_path argv) = Some (File content)"
  shows "main fs argv =
    Exit (print_report (target_path argv) (fst (checks content)) (snd (checks content)))
         (if list_all passed (fst (checks content)) then 0 else 1)"
  using assms
  by (simp add: main_def exists_def run_checks_def read_def Let_def split: prod.splits)

lemma result_line_printed:
  assumes "r \<in> set results"
  shows "((if passed r then ''PASS: '' else ''FAIL: '') @ fst r)
           \<in> set (print_report path results amps)"
proof -
  have "((if passed r then ''PASS: '' else ''FAIL: '') @ fst r) \<in> set (result_lines r)"
    by (cases r) (simp add: result_lines_def passed_def)
  with assms have "((if passed r then ''PASS: '' else ''FAIL: '') @ fst r)
      \<in> set (concat (map result_lines results))"
    by auto
  then show ?thesis
    unfolding print_report_def by simp
qed

lemma minimal_doc_passes:
  "map passed (fst (checks minimal_doc)) = [True, True, True, True, True, True, True, True]"
  by code_simp

lemma minimal_doc_no_amps: "snd (checks minimal_doc) = []"
  by code_simp

lemma minimal_doc_without_doctype_result:
  "map passed (fst (checks minimal_doc_without_doctype))
     = [False, True, True, True, True, True, True, True]"
  by code_simp

lemma minimal_doc_split: "minimal_doc = ''<!DOCTYPE html>'' @ minimal_doc_without_doctype"
  by (simp add: minimal_doc_def minimal_doc_without_doctype_def)

text \<open>
  C1. When the target path names a file whose text is the minimal valid document, each
  of the eight checks passes, the report is printed with no ampersand examples, and the
  exit status is 0.
\<close>

theorem minimal_document_exit_0:
  assumes "fs (target_path argv) = Some (File minimal_doc)"
  shows "map passed (fst (checks minimal_doc)) = replicate 8 True
     \<and> main fs argv = Exit (print_report (target_path argv) (fst (checks minimal_doc)) []) 0
     \<and> status (main fs argv) = 0"
proof -
  have all: "list_all passed (fst (checks minimal_doc))"
    using minimal_doc_passes by (simp add: checks_def)
  have "main fs argv = Exit (print_report (target_path argv) (fst (checks minimal_doc)) []) 0"
    using main_on_file [of fs argv minimal_doc, OF assms] all minimal_doc_no_amps by simp
  then show ?thesis
    using minimal_doc_passes by (simp add: numeral_eq_Suc)
qed

theorem minimal_document_exit_0_witness:
  "status (main (\<lambda>p. if p = ''index.html'' then Some (File minimal_doc) else None)
                [''validate_html.py'', ''index.html'']) = 0"
  using minimal_document_exit_0
    [of "\<lambda>p. if p = ''index.html'' then Some (File minimal_doc) else None"
        "[''validate_html.py'', ''index.html'']"]
  by (simp add: target_path_def)

text \<open>
  C2. When the target path names a file, all eight rules are evaluated whatever the
  earlier ones gave, the report is printed with a PASS or FAIL line for each of them, the
  exit status is 0 exactly when every check passed, and it is 1 when some check failed.
\<close>

theorem exit_status_of_existing_file:
  assumes "fs (target_path argv) = Some (File content)"
  shows "length (fst (checks content)) = 8
     \<and> stdout (main fs argv)
         = print_report (target_path argv) (fst (checks content)) (snd (checks content))
     \<and> (\<forall>r \<in> set (fst (checks content)).
           ((if passed r then ''PASS: '' else ''FAIL: '') @ fst r) \<in> set (stdout (main fs argv)))
     \<and> (status (main fs argv) = 0 \<longleftrightarrow> list_all passed (fst (checks content)))
     \<and> (\<not> list_all passed (fst (checks content)) \<longrightarrow> status (main fs argv) = 1)"
proof -
  note m = main_on_file [of fs argv content, OF assms]
  have "\<forall>r \<in> set (fst (checks content)).
      ((if passed r then ''PASS: '' else ''FAIL: '') @ fst r) \<in> set (stdout (main fs argv))"
    using m result_line_printed by simp
  then show ?thesis
    using m length_checks by simp
qed

theorem exit_status_of_existing_file_witness:
  "status (main (\<lambda>p. if p = ''empty.html'' then Some (File []) else None)
                [''validate_html.py'', ''empty.html'']) = 1
   \<and> \<not> list_all passed (fst (checks []))"
proof -
  have "\<not> list_all passed (fst (checks []))"
    by code_simp
  then show ?thesis
    using exit_status_of_existing_file
      [of "\<lambda>p. if p = ''empty.html'' then Some (File []) else None"
          "[''validate_html.py'', ''empty.html'']" "[]"]
    by (simp add: target_path_def)
qed

text \<open>
  C3. When the target path names nothing, the only text printed is
  \<^verbatim>\<open>File not found: <path>\<close>, the exit status is 2, and no report is printed.
\<close>

theorem missing_file_exit_2:
  assumes "fs (target_path argv) = None"
  shows "main fs argv = Exit [''File not found: '' @ target_path argv] 2"
  using assms by (simp add: main_def exists_def)

theorem missing_file_exit_2_witness:
  "main (\<lambda>p. None) [''validate_html.py'', ''nope.html'']
     = Exit [''File not found: nope.html''] 2"
  using missing_file_exit_2 [of "\<lambda>p. None" "[''validate_html.py'', ''nope.html'']"]
  by (simp add: target_path_def)

section \<open>Check 8: unescaped ampersands\<close>

lemma entity_body_no_semicolon: "entity_body b \<Longrightarrow> CHR '';'' \<notin> set b"
  unfolding entity_body_def
  by (auto simp: list_all_iff split: list.splits)

lemma entity_follows_iff:
  "entity_follows zs \<longleftrightarrow> (\<exists>body zs'. zs = body @ CHR '';'' # zs' \<and> entity_body body)"
  (is "?L = ?R")
proof
  assume ?L
  define b where "b = takeWhile (\<lambda>c. c \<noteq> CHR '';'') zs"
  define d where "d = dropWhile (\<lambda>c. c \<noteq> CHR '';'') zs"
  have zs: "zs = b @ d"
    by (simp add: b_def d_def)
  from \<open>?L\<close> have 1: "length b < length zs" "entity_body b"
    by (simp_all add: entity_follows_def Let_def b_def)
  with zs have "d \<noteq> []" by auto
  then have "\<not> (hd d \<noteq> CHR '';'')"
    unfolding d_def by (rule hd_dropWhile)
  with \<open>d \<noteq> []\<close> have "d = CHR '';'' # tl d"
    by (cases d) auto
  with zs have "zs = b @ CHR '';'' # tl d" by simp
  with 1 show ?R by blast
next
  assume ?R
  then obtain body zs' where 1: "zs = body @ CHR '';'' # zs'" "entity_body body" by blast
  have "takeWhile (\<lambda>c. c \<noteq> CHR '';'') body = body"
    using entity_body_no_semicolon [OF 1(2)] by (auto simp: takeWhile_eq_all_conv)
  then have "takeWhile (\<lambda>c. c \<noteq> CHR '';'') zs = body"
    unfolding 1(1) by (subst takeWhile_tail) simp_all
  with 1 show ?L
    by (simp add: entity_follows_def)
qed

lemma mem_entity_alt:
  "u \<in> set (rmatch False entity_alt (St p zs g)) \<longleftrightarrow>
     (\<exists>body zs1. zs = body @ zs1 \<and> entity_body body \<and> u = St (last_opt p body) zs1 g)"
  (is "?L = ?R")
proof
  assume ?L
  then consider
      (digits) "u \<in> set (rmatch False (Seq (Lit CHR ''#'') (Plus (Cls is_ascii_digit))) (St p zs g))"
    | (hex) "u \<in> set (rmatch False (Seq (lits ''#x'') (Plus (Cls is_hex_digit))) (St p zs g))"
    | (alpha) "u \<in> set (rmatch False (Plus (Cls is_ascii_alpha)) (St p zs g))"
    unfolding entity_alt_def mem_Alt by blast
  then show ?R
  proof cases
    case digits
    then obtain zs0 where 0: "zs = CHR ''#'' # zs0"
        "u \<in> set (rmatch False (Plus (Cls is_ascii_digit)) (St (Some CHR ''#'') zs0 g))"
      unfolding mem_Seq mem_Lit by (auto simp: lit_eq_def)
    then obtain ds zs1 where 1: "zs = CHR ''#'' # ds @ zs1" "ds \<noteq> []" "\<forall>y \<in> set ds. is_ascii_digit y"
        "u = St (last_opt (Some CHR ''#'') ds) zs1 g"
      unfolding mem_Plus_Cls by auto
    then have "zs = (CHR ''#'' # ds) @ zs1 \<and> entity_body (CHR ''#'' # ds)
        \<and> u = St (last_opt p (CHR ''#'' # ds)) zs1 g"
      by (simp add: entity_body_def list_all_iff last_opt_Cons)
    then show ?thesis by blast
  next
    case hex
    then obtain zs0 where 0: "zs = ''#x'' @ zs0"
        "u \<in> set (rmatch False (Plus (Cls is_hex_digit)) (St (last_opt p ''#x'') zs0 g))"
      unfolding mem_Seq mem_lits list_all2_lit_eq_False by auto
    then obtain hs zs1 where 1: "zs = ''#x'' @ hs @ zs1" "hs \<noteq> []" "\<forall>y \<in> set hs. is_hex_digit y"
        "u = St (last_opt (last_opt p ''#x'') hs) zs1 g"
      unfolding mem_Plus_Cls by auto
    then have "zs = (''#x'' @ hs) @ zs1 \<and> entity_body (''#x'' @ hs)
        \<and> u = St (last_opt p (''#x'' @ hs)) zs1 g"
      by (simp add: entity_body_def list_all_iff last_opt_def)
    then show ?thesis by blast
  next
    case alpha
    then obtain ys zs1 where 1: "zs = ys @ zs1" "ys \<noteq> []" "\<forall>y \<in> set ys. is_ascii_alpha y"
        "u = St (last_opt p ys) zs1 g"
      unfolding mem_Plus_Cls by blast
    then have "zs = ys @ zs1 \<and> entity_body ys \<and> u = St (last_opt p ys) zs1 g"
      by (simp add: entity_body_def list_all_iff)
    then show ?thesis by blast
  qed
next
  assume ?R
  then obtain body zs1 where 1: "zs = body @ zs1" "entity_body body" "u = St (last_opt p body) zs1 g"
    by blast
  from 1(2) consider
      (digits) ds where "body = CHR ''#'' # ds" "ds \<noteq> []" "list_all is_ascii_digit ds"
    | (hex) hs where "body = ''#x'' @ hs" "hs \<noteq> []" "list_all is_hex_digit hs"
    | (alpha) "body \<noteq> []" "list_all is_ascii_alpha body"
    unfolding entity_body_def by (auto split: list.splits)
  then show ?L
  proof cases
    case digits
    have "St (Some CHR ''#'') (ds @ zs1) g \<in> set (rmatch False (Lit CHR ''#'') (St p zs g))"
      unfolding mem_Lit using 1 digits by (auto simp: lit_eq_def)
    moreover have "u \<in> set (rmatch False (Plus (Cls is_ascii_digit)) (St (Some CHR ''#'') (ds @ zs1) g))"
      unfolding mem_Plus_Cls using 1 digits by (auto simp: list_all_iff last_opt_Cons)
    ultimately have "u \<in> set (rmatch False (Seq (Lit CHR ''#'') (Plus (Cls is_ascii_digit))) (St p zs g))"
      unfolding mem_Seq by blast
    then show ?thesis unfolding entity_alt_def mem_Alt by blast
  next
    case hex
    have "St (last_opt p ''#x'') (hs @ zs1) g \<in> set (rmatch False (lits ''#x'') (St p zs g))"
      unfolding mem_lits list_all2_lit_eq_False using 1 hex by auto
    moreover have "u \<in> set (rmatch False (Plus (Cls is_hex_digit)) (St (last_opt p ''#x'') (hs @ zs1) g))"
      unfolding mem_Plus_Cls using 1 hex by (auto simp: list_all_iff last_opt_def)
    ultimately have "u \<in> set (rmatch False (Seq (lits ''#x'') (Plus (Cls is_hex_digit))) (St p zs g))"
      unfolding mem_Seq by blast
    then show ?thesis unfolding entity_alt_def mem_Alt by blast
  next
    case alpha
    with 1 have "u \<in> set (rmatch False (Plus (Cls is_ascii_alpha)) (St p zs g))"
      unfolding mem_Plus_Cls by (auto simp: list_all_iff)
    then show ?thesis unfolding entity_alt_def mem_Alt by blast
  qed
qed

lemma amp_re_alt: "amp_re = Seq (Lit CHR ''&'') (NegLook (Seq (Group 1 entity_alt) (Lit CHR '';'')))"
  by (simp add: amp_re_def entity_alt_def)

lemma ok_entity_lookahead:
  "rmatch False (Seq (Group n entity_alt) (Lit CHR '';'')) (St p zs g) \<noteq> [] \<longleftrightarrow> entity_follows zs"
  (is "?L = ?R")
proof
  assume ?L
  then obtain u c zs' where "u \<in> set (rmatch False entity_alt (St p zs g))" "rest u = c # zs'"
      "lit_eq False CHR '';'' c"
    unfolding ok_Seq mem_Group ok_Lit by auto
  then show ?R
    unfolding mem_entity_alt entity_follows_iff by (auto simp: lit_eq_def) blast
next
  assume ?R
  then obtain body zs' where 1: "zs = body @ CHR '';'' # zs'" "entity_body body"
    unfolding entity_follows_iff by blast
  define u where "u = St (last_opt p body) (CHR '';'' # zs') g"
  have "u \<in> set (rmatch False entity_alt (St p zs g))"
    unfolding mem_entity_alt u_def using 1 by blast
  moreover have "rest u = CHR '';'' # zs'" by (simp add: u_def)
  ultimately show ?L
    unfolding ok_Seq mem_Group ok_Lit by (auto simp: lit_eq_def)
qed

lemma ok_amp_re:
  "rmatch False amp_re (St p xs g) \<noteq> [] \<longleftrightarrow>
     (case xs of [] \<Rightarrow> False | c # zs \<Rightarrow> c = CHR ''&'' \<and> \<not> entity_follows zs)"
proof -
  have look: "rmatch False (NegLook (Seq (Group n entity_alt) (Lit CHR '';''))) (St q zs g) \<noteq> []
      \<longleftrightarrow> \<not> entity_follows zs" for n q zs
    using ok_entity_lookahead [of n q zs g] by (auto simp: rmatch.simps(11))
  show ?thesis
    unfolding amp_re_alt ok_Seq mem_Lit
    by (cases xs) (auto simp: look lit_eq_def)
qed

lemma line_flagged_iff:
  "finditer False amp_re line \<noteq> [] \<longleftrightarrow> bare_ampersand line"
  unfolding finditer_def finditer_from_Nil_iff search_from_iff bare_ampersand_def somewhere_iff
    ok_amp_re
  by simp

lemma amp_loop_eq:
  "amp_loop i ls =
     map (\<lambda>(i, line). (i, strip line))
         (filter (\<lambda>(i, line). bare_ampersand line) (zip [i ..< i + length ls] ls))"
proof (induction ls arbitrary: i)
  case Nil
  show ?case by simp
next
  case (Cons l ls)
  have "[i ..< Suc (i + length ls)] = i # [Suc i ..< Suc (i + length ls)]"
    by (rule upt_conv_Cons) simp
  then have "[i ..< i + length (l # ls)] = i # [Suc i ..< Suc i + length ls]"
    by simp
  then show ?case
    using line_flagged_iff [of l] Cons.IH [of "Suc i"]
    by (auto split: list.splits)
qed

lemma check_unescaped_ampersands_eq:
  "check_unescaped_ampersands content =
     map (\<lambda>(i, line). (i, strip line))
         (filter (\<lambda>(i, line). bare_ampersand line) (numbered_lines content))"
  by (simp add: check_unescaped_ampersands_def numbered_lines_def amp_loop_eq)

lemma distinct_flagged: "distinct (map fst (check_unescaped_ampersands content))"
proof -
  have "map fst (check_unescaped_ampersands content)
      = map fst (filter (\<lambda>(i, line). bare_ampersand line) (numbered_lines content))"
    unfolding check_unescaped_ampersands_eq by (simp add: comp_def case_prod_unfold)
  moreover have "map fst (numbered_lines content) = [1 ..< Suc (length (splitlines content))]"
    unfolding numbered_lines_def by (rule map_fst_zip) (simp del: upt_Suc)
  then have "distinct (map fst (numbered_lines content))"
    by (simp only: distinct_upt)
  ultimately show ?thesis
    by (simp add: distinct_map_filter)
qed

lemma check8_passed_iff:
  "passed (check8 content) \<longleftrightarrow> (\<forall>line \<in> set (splitlines content). \<not> bare_ampersand line)"
proof -
  have "map snd (numbered_lines content) = splitlines content"
    unfolding numbered_lines_def by (rule map_snd_zip) (simp del: upt_Suc)
  then have "set (map snd (numbered_lines content)) = set (splitlines content)"
    by simp
  then have "(\<forall>line \<in> set (splitlines content). \<not> bare_ampersand line)
      \<longleftrightarrow> (\<forall>x \<in> set (numbered_lines content). \<not> bare_ampersand (snd x))"
    by (metis (no_types, lifting) image_iff list.set_map)
  then show ?thesis
    by (auto simp: check8_def passed_def Let_def check_unescaped_ampersands_eq filter_empty_conv)
qed

lemma entity_body_first:
  assumes "entity_body (c # b)"
  shows "c = CHR ''#'' \<or> is_ascii_alpha c"
  using assms unfolding entity_body_def by (auto split: list.splits)

lemma ampersand_before_space:
  "bare_ampersand (a @ CHR ''&'' # CHR '' '' # b)"
proof -
  have "\<not> entity_follows (CHR '' '' # b)"
  proof
    assume "entity_follows (CHR '' '' # b)"
    then obtain body zs' where 1: "CHR '' '' # b = body @ CHR '';'' # zs'" "entity_body body"
      unfolding entity_follows_iff by blast
    from 1(2) have "body \<noteq> []" by (auto simp: entity_body_def)
    with 1(1) obtain body' where "body = CHR '' '' # body'"
      by (cases body) auto
    with 1(2) have "CHR '' '' = CHR ''#'' \<or> is_ascii_alpha CHR '' ''"
      using entity_body_first by blast
    then show False by (simp add: is_ascii_alpha_def code_def)
  qed
  then show ?thesis
    unfolding bare_ampersand_def somewhere_iff by force
qed

lemma cats_and_dogs: "bare_ampersand (a @ ''Cats & Dogs'' @ b)"
  using ampersand_before_space [of "a @ ''Cats ''" "''Dogs'' @ b"] by simp

lemma doc_amp_flagged:
  "map (\<lambda>(i, line). (i, strip line))
       (filter (\<lambda>(i, line). bare_ampersand line) (numbered_lines doc_amp))
     = [(1, ''a & b''), (3, ''&#X3C;'')]"
  by code_simp

lemma ampersand_examples:
  "check_unescaped_ampersands ''Cats & Dogs'' = [(1, ''Cats & Dogs'')]"
  "check_unescaped_ampersands ''Cats &amp; Dogs'' = []"
  "check_unescaped_ampersands ''&#169;'' = []"
  by code_simp+

text \<open>
  C4 (as the specification states it, refuted). The specification counts \<^verbatim>\<open>#X\<close> and
  hexadecimal digits as a reference. On the one-line document \<^verbatim>\<open>&#X3C;\<close> the line has
  no bare ampersand in that sense, but the pattern of the source knows the lower-case
  \<^verbatim>\<open>#x\<close> only: the line is recorded and check 8 fails.
\<close>

theorem uppercase_hex_reference_is_flagged:
  "\<not> spec_bare_ampersand ''&#X3C;''
   \<and> check_unescaped_ampersands ''&#X3C;'' = [(1, ''&#X3C;'')]
   \<and> \<not> passed (check8 ''&#X3C;'')"
  by code_simp

text \<open>
  C4 (amended). For every document, the lines that check 8 records are exactly the
  lines that contain an \<^verbatim>\<open>&\<close> which is not followed at once by \<^verbatim>\<open>#\<close> and digits,
  \<^verbatim>\<open>#x\<close> (lower case only) and hexadecimal digits, or one or more letters, and then
  \<^verbatim>\<open>;\<close>. Each such line is recorded once, with its number and its stripped text, and
  the check passes exactly when no line is recorded. Every line that contains
  \<^verbatim>\<open>Cats & Dogs\<close> is recorded, the lines \<^verbatim>\<open>Cats &amp; Dogs\<close> and \<^verbatim>\<open>&#169;\<close> are
  not.
\<close>

theorem unescaped_ampersand_lines:
  "check_unescaped_ampersands content
     = map (\<lambda>(i, line). (i, strip line))
           (filter (\<lambda>(i, line). bare_ampersand line) (numbered_lines content))
   \<and> distinct (map fst (check_unescaped_ampersands content))
   \<and> (passed (check8 content) \<longleftrightarrow> (\<forall>line \<in> set (splitlines content). \<not> bare_ampersand line))
   \<and> (\<forall>a b. bare_ampersand (a @ ''Cats & Dogs'' @ b))
   \<and> check_unescaped_ampersands ''Cats & Dogs'' = [(1, ''Cats & Dogs'')]
   \<and> check_unescaped_ampersands ''Cats &amp; Dogs'' = []
   \<and> check_unescaped_ampersands ''&#169;'' = []"
  using check_unescaped_ampersands_eq distinct_flagged check8_passed_iff ampersand_examples
    cats_and_dogs
  by blast

theorem unescaped_ampersand_lines_witness:
  "check_unescaped_ampersands doc_amp = [(1, ''a & b''), (3, ''&#X3C;'')]"
  using unescaped_ampersand_lines [of doc_amp] doc_amp_flagged by simp

section \<open>Check 2: one opening and one closing html tag\<close>

lemma html_open_count:
  "findall_count True html_open_re content = count_where (tag_start ''<html'') content"
  unfolding html_open_re_def
  by (rule count_tag_open [where a = "CHR ''<''" and w' = "''html''"])
     (simp_all add: lower_def code_def is_word_def is_ascii_alpha_def)

lemma html_close_count:
  "findall_count True html_close_re content = count_where (starts_with_ci ''</html>'') content"
  unfolding html_close_re_def
  by (rule count_tag_close [where a = "CHR ''<''" and w' = "''/html>''"])
     (simp_all add: lower_def code_def)

lemma check2_eq:
  "check2 content =
     (''Single <html> open/close'',
      count_where (tag_start ''<html'') content = 1
        \<and> count_where (starts_with_ci ''</html>'') content = 1,
      ''Found <html> opens: '' @ show_nat (count_where (tag_start ''<html'') content)
        @ '', closes: '' @ show_nat (count_where (starts_with_ci ''</html>'') content) @ ''.'')"
  by (simp add: check2_def Let_def html_open_count html_close_count)

lemma two_html_tags:
  "count_where (tag_start ''<html'') ''<html><html></html>'' = 2"
  "show_nat (count_where (starts_with_ci ''</html>'') ''<html><html></html>'') = ''1''"
  by code_simp+

text \<open>
  C5 (as the specification states it, refuted). The document \<^verbatim>\<open><htmlx></html>\<close> has
  one occurrence of the prefix \<^verbatim>\<open><html\<close> and one of \<^verbatim>\<open></html>\<close>, and check 2 fails
  on it: the pattern of the source is \<^verbatim>\<open><html\b\<close>, which does not match before a
  letter.
\<close>

theorem html_prefix_before_letter_not_counted:
  "count_where (starts_with_ci ''<html'') ''<htmlx></html>'' = 1
   \<and> count_where (starts_with_ci ''</html>'') ''<htmlx></html>'' = 1
   \<and> \<not> passed (check2 ''<htmlx></html>'')"
  by code_simp

text \<open>
  C5 (amended). For every document, check 2 counts the occurrences, up to case, of
  \<^verbatim>\<open><html\<close> that are followed by a word boundary (the next character is no letter,
  digit or underscore, or the text ends; a closing \<^verbatim>\<open>>\<close> is not needed) and the
  occurrences of \<^verbatim>\<open></html>\<close>. It passes exactly when both counts are 1. When the first
  count is 2 the check fails and its message reports \<^verbatim>\<open>opens: 2\<close>.
\<close>

theorem html_tag_counts:
  "findall_count True html_open_re content = count_where (tag_start ''<html'') content
   \<and> findall_count True html_close_re content = count_where (starts_with_ci ''</html>'') content
   \<and> (passed (check2 content) \<longleftrightarrow>
        count_where (tag_start ''<html'') content = 1
        \<and> count_where (starts_with_ci ''</html>'') content = 1)
   \<and> (count_where (tag_start ''<html'') content = 2 \<longrightarrow>
        \<not> passed (check2 content)
        \<and> snd (snd (check2 content)) = ''Found <html> opens: 2, closes: ''
            @ show_nat (count_where (starts_with_ci ''</html>'') content) @ ''.'')"
proof -
  have "show_nat 2 = ''2''" by code_simp
  then show ?thesis
    using html_open_count html_close_count
    by (simp add: check2_eq passed_def)
qed

theorem html_tag_counts_witness:
  "\<not> passed (check2 ''<html><html></html>'')
   \<and> snd (snd (check2 ''<html><html></html>'')) = ''Found <html> opens: 2, closes: 1.''"
  using html_tag_counts [of "''<html><html></html>''"] two_html_tags by simp

section \<open>Check 7: link tags\<close>




lemma ok_quoted_by:
  assumes "code q < 65"
  shows "rmatch True (seqs [Lit q, Star (Cls (\<lambda>c. c \<noteq> q)), Lit q]) (St p xs g) \<noteq> [] \<longleftrightarrow>
     (case xs of [] \<Rightarrow> False | c # v \<Rightarrow> c = q \<and> q \<in> set v)"
proof -
  have q: "lit_eq True q c \<longleftrightarrow> c = q" for c
    using assms by (simp add: lit_eq_symbol)
  have inner: "rmatch True (Seq (Star (Cls (\<lambda>c. c \<noteq> q))) (Seq (Lit q) Eps)) (St p' v g) \<noteq> []
      \<longleftrightarrow> q \<in> set v" for p' v
  proof -
    have "rmatch True (Seq (Star (Cls (\<lambda>c. c \<noteq> q))) (Seq (Lit q) Eps)) (St p' v g) \<noteq> []
        \<longleftrightarrow> rmatch True (Seq (Lit q) Eps) (St None (dropWhile (\<lambda>c. c \<noteq> q) v) g) \<noteq> []"
      by (rule ok_Star_run) (simp_all add: prev_indep_Lit no_Seq_Lit q)
    also have "\<dots> \<longleftrightarrow> dropWhile (\<lambda>c. c \<noteq> q) v \<noteq> []"
    proof -
      have "rmatch True (Seq (Lit q) Eps) (St None ys g) \<noteq> [] \<longleftrightarrow> ys \<noteq> [] \<and> hd ys = q" for ys
        by (cases ys) (simp_all add: ok_Seq_Lit ok_Eps q)
      moreover have "hd (dropWhile (\<lambda>c. c \<noteq> q) v) = q" if "dropWhile (\<lambda>c. c \<noteq> q) v \<noteq> []"
        using hd_dropWhile [OF that] by simp
      ultimately show ?thesis by blast
    qed
    also have "\<dots> \<longleftrightarrow> q \<in> set v"
      by (auto simp: dropWhile_eq_Nil_conv)
    finally show ?thesis .
  qed
  show ?thesis
    by (cases xs) (simp_all add: ok_Seq_Lit inner q)
qed

lemma ok_quoted_alt:
  "rmatch True (Seq (Group n quoted_alt) Eps) (St p xs g) \<noteq> [] \<longleftrightarrow> quoted_value xs"
  unfolding ok_Seq_Eps ok_Group quoted_alt_def ok_Alt
  by (subst ok_quoted_by, simp, subst ok_quoted_by, simp)
     (auto simp: quoted_value_def split: list.splits)

lemma ok_assignment:
  "rmatch True (seqs [Star (Cls is_space), Lit CHR ''='', Star (Cls is_space), Group n quoted_alt])
       (St p xs g) \<noteq> [] \<longleftrightarrow> assignment_after xs"
proof -
  have eq: "lit_eq True CHR ''='' c \<longleftrightarrow> c = CHR ''=''" for c
    by (simp add: lit_eq_symbol)
  have val: "rmatch True (Seq (Star (Cls is_space)) (Seq (Group n quoted_alt) Eps)) (St p' u g) \<noteq> []
      \<longleftrightarrow> quoted_value (dropWhile is_space u)" for p' u
  proof -
    have "rmatch True (Seq (Star (Cls is_space)) (Seq (Group n quoted_alt) Eps)) (St p' u g) \<noteq> []
        \<longleftrightarrow> rmatch True (Seq (Group n quoted_alt) Eps) (St None (dropWhile is_space u) g) \<noteq> []"
    proof (rule ok_Star_run)
      show "prev_indep True (Seq (Group n quoted_alt) Eps)"
        unfolding prev_indep_def ok_quoted_alt by simp
      show "rmatch True (Seq (Group n quoted_alt) Eps) (St None (c # zs) g') = []"
        if "is_space c" for c zs g'
        using that ok_quoted_alt [of n None "c # zs" g'] by (auto simp: quoted_value_def)
    qed
    then show ?thesis by (simp only: ok_quoted_alt)
  qed
  have "rmatch True (Seq (Star (Cls is_space)) (Seq (Lit CHR ''='')
            (Seq (Star (Cls is_space)) (Seq (Group n quoted_alt) Eps)))) (St p xs g) \<noteq> []
      \<longleftrightarrow> rmatch True (Seq (Lit CHR ''='') (Seq (Star (Cls is_space)) (Seq (Group n quoted_alt) Eps)))
            (St None (dropWhile is_space xs) g) \<noteq> []"
  proof (rule ok_Star_run)
    show "prev_indep True (Seq (Lit CHR ''='') (Seq (Star (Cls is_space)) (Seq (Group n quoted_alt) Eps)))"
      by (rule prev_indep_Lit)
    show "rmatch True (Seq (Lit CHR ''='') (Seq (Star (Cls is_space)) (Seq (Group n quoted_alt) Eps)))
        (St None (c # zs) g') = []" if "is_space c" for c zs g'
    proof (rule no_Seq_Lit)
      from that have "c \<noteq> CHR ''=''" by auto
      then show "\<not> lit_eq True CHR ''='' c" by (simp add: eq)
    qed
  qed
  also have "\<dots> \<longleftrightarrow> assignment_after xs"
  proof -
    have "rmatch True (Seq (Lit CHR ''='') (Seq (Star (Cls is_space)) (Seq (Group n quoted_alt) Eps)))
            (St None ys g) \<noteq> []
        \<longleftrightarrow> (case ys of [] \<Rightarrow> False | c # u \<Rightarrow> c = CHR ''='' \<and> quoted_value (dropWhile is_space u))"
      for ys
      by (cases ys) (simp_all add: ok_Seq_Lit eq val)
    then show ?thesis
      unfolding assignment_after_def by blast
  qed
  finally show ?thesis by simp
qed

lemma attr_re_alt:
  "attr_re name = Seq (lits name)
     (seqs [Star (Cls is_space), Lit CHR ''='', Star (Cls is_space), Group 1 quoted_alt])"
  by (simp add: attr_re_def quoted_alt_def)

lemma attr_has_iff:
  assumes "name \<noteq> []"
  shows "attr_has attrs name \<longleftrightarrow> has_assignment name attrs"
proof -
  have "prev_indep True (attr_re name)"
    unfolding attr_re_alt using assms by (rule prev_indep_lits)
  then show ?thesis
    unfolding attr_has_def has_assignment_def
    by (simp add: re_search_prev_indep) (simp only: attr_re_alt ok_Seq_lits ok_assignment)
qed

lemma check7_eq:
  "check7 content =
     (''All <link> tags have href and rel'',
      (\<forall>attrs \<in> set (find_links content).
          has_assignment ''href'' attrs \<and> has_assignment ''rel'' attrs),
      ''Problematic <link> tags: '' @ show_nat (length (filter
          (\<lambda>attrs. \<not> has_assignment ''href'' attrs \<or> \<not> has_assignment ''rel'' attrs)
          (find_links content))))"
  by (auto simp: check7_def link_problems_def attr_has_iff filter_empty_conv)

lemma stylesheet_link_example:
  \<open>find_links ''<link rel="stylesheet">'' = [''rel="stylesheet"'']\<close>
  \<open>check7 ''<link rel="stylesheet">''
     = (''All <link> tags have href and rel'', False, ''Problematic <link> tags: 1'')\<close>
  by code_simp+

lemma doc_links_facts:
  \<open>find_links doc_links = [''REL="icon" href = "a.png"'', ''rel="stylesheet"'']\<close>
  \<open>has_assignment ''href'' ''REL="icon" href = "a.png"''\<close>
  \<open>\<not> has_assignment ''href'' ''rel="stylesheet"''\<close>
  by code_simp+


text \<open>
  C6. For every document, check 7 looks in the attribute text of each extracted link tag
  for \<^verbatim>\<open>href\<close> (up to case), optional whitespace, \<^verbatim>\<open>=\<close>, optional whitespace and a
  value in double or in single quotes, and the same for \<^verbatim>\<open>rel\<close>. A tag without one of
  the two is a problem; the check passes exactly when there is no problem, and its
  message gives the number of problems. The tag \<^verbatim>\<open><link rel="stylesheet">\<close> is one
  problem, with the message \<^verbatim>\<open>Problematic <link> tags: 1\<close>.
\<close>

theorem link_attributes_checked:
  \<open>(passed (check7 content) \<longleftrightarrow>
      (\<forall>attrs \<in> set (find_links content).
          has_assignment ''href'' attrs \<and> has_assignment ''rel'' attrs))
   \<and> snd (snd (check7 content)) = ''Problematic <link> tags: '' @ show_nat (length (filter
          (\<lambda>attrs. \<not> has_assignment ''href'' attrs \<or> \<not> has_assignment ''rel'' attrs)
          (find_links content)))
   \<and> find_links ''<link rel="stylesheet">'' = [''rel="stylesheet"'']
   \<and> check7 ''<link rel="stylesheet">''
       = (''All <link> tags have href and rel'', False, ''Problematic <link> tags: 1'')\<close>
proof -
  have "passed (check7 content) \<longleftrightarrow>
      (\<forall>attrs \<in> set (find_links content).
          has_assignment ''href'' attrs \<and> has_assignment ''rel'' attrs)"
    by (simp add: check7_eq passed_def)
  moreover have "snd (snd (check7 content)) = ''Problematic <link> tags: '' @ show_nat (length (filter
          (\<lambda>attrs. \<not> has_assignment ''href'' attrs \<or> \<not> has_assignment ''rel'' attrs)
          (find_links content)))"
    by (simp add: check7_eq)
  ultimately show ?thesis
    using stylesheet_link_example by blast
qed

theorem link_attributes_checked_witness: "\<not> passed (check7 doc_links)"
  using link_attributes_checked [of doc_links] doc_links_facts by simp

section \<open>Check 3: the lang attribute\<close>

lemma lang_re_matches:
  assumes h: "ci_eq h ''<html''"
    and mid: "\<forall>x \<in> set mid. x \<noteq> CHR ''>''" "mid \<noteq> []" "\<not> is_word (last mid)"
    and l: "ci_eq l ''lang''"
    and ws: "\<forall>x \<in> set ws1. is_space x" "\<forall>x \<in> set ws2. is_space x"
    and q: "q = dquote \<or> q = squote"
    and v: "newline \<notin> set v"
  shows "rmatch True lang_re (St p (h @ mid @ l @ ws1 @ CHR ''='' # ws2 @ q # v @ q # post) []) \<noteq> []"
proof -
  let ?x8 = "v @ q # post"
  let ?x7 = "q # ?x8"
  let ?x6 = "ws2 @ ?x7"
  let ?x5 = "CHR ''='' # ?x6"
  let ?x4 = "ws1 @ ?x5"
  let ?x3 = "l @ ?x4"
  let ?x2 = "mid @ ?x3"
  let ?x1 = "h @ ?x2"
  have l_word: "\<exists>c l'. l = c # l' \<and> is_word c"
    using l by (rule is_word_first_ci) (simp add: is_word_def is_ascii_alpha_def code_def)
  have r9: "rmatch True (Seq (Backref 1) Eps) (St p9 (q # post) [(2, v), (1, [q])]) \<noteq> []" for p9
    by (rule ok_SeqI [where u = "consume [q] (St p9 (q # post) [(2, v), (1, [q])])"])
       (simp_all add: rmatch.simps(10) ok_Eps lit_eq_def)
  have r8: "rmatch True (Seq (Group 2 (LazyStar (Cls dot))) (Seq (Backref 1) Eps))
      (St p8 ?x8 [(1, [q])]) \<noteq> []" for p8
  proof (rule ok_SeqI)
    have "St (last_opt p8 v) (q # post) [(1, [q])]
        \<in> set (rmatch True (LazyStar (Cls dot)) (St p8 ?x8 [(1, [q])]))"
      unfolding mem_LazyStar_Cls using v by (auto simp: dot_def)
    then show "St (last_opt p8 v) (q # post) [(2, v), (1, [q])]
        \<in> set (rmatch True (Group 2 (LazyStar (Cls dot))) (St p8 ?x8 [(1, [q])]))"
      unfolding mem_Group by force
    show "rmatch True (Seq (Backref 1) Eps) (St (last_opt p8 v) (q # post) [(2, v), (1, [q])]) \<noteq> []"
      by (rule r9)
  qed
  have r7: "rmatch True (Seq (Group 1 (Cls quote_class))
      (Seq (Group 2 (LazyStar (Cls dot))) (Seq (Backref 1) Eps))) (St p7 ?x7 []) \<noteq> []" for p7
  proof (rule ok_SeqI)
    have "St (Some q) ?x8 [] \<in> set (rmatch True (Cls quote_class) (St p7 ?x7 []))"
      unfolding mem_Cls using q by (auto simp: quote_class_def)
    then show "St (Some q) ?x8 [(1, [q])]
        \<in> set (rmatch True (Group 1 (Cls quote_class)) (St p7 ?x7 []))"
      unfolding mem_Group by force
    show "rmatch True (Seq (Group 2 (LazyStar (Cls dot))) (Seq (Backref 1) Eps))
        (St (Some q) ?x8 [(1, [q])]) \<noteq> []"
      by (rule r8)
  qed
  have r6: "rmatch True (Seq (Star (Cls is_space)) (Seq (Group 1 (Cls quote_class))
      (Seq (Group 2 (LazyStar (Cls dot))) (Seq (Backref 1) Eps)))) (St p6 ?x6 []) \<noteq> []" for p6
  proof (rule ok_SeqI)
    show "St (last_opt p6 ws2) ?x7 [] \<in> set (rmatch True (Star (Cls is_space)) (St p6 ?x6 []))"
      unfolding mem_Star_Cls using ws by blast
    show "rmatch True (Seq (Group 1 (Cls quote_class))
        (Seq (Group 2 (LazyStar (Cls dot))) (Seq (Backref 1) Eps))) (St (last_opt p6 ws2) ?x7 []) \<noteq> []"
      by (rule r7)
  qed
  have r5: "rmatch True (Seq (Lit CHR ''='') (Seq (Star (Cls is_space)) (Seq (Group 1 (Cls quote_class))
      (Seq (Group 2 (LazyStar (Cls dot))) (Seq (Backref 1) Eps))))) (St p5 ?x5 []) \<noteq> []" for p5
    unfolding ok_Seq_Lit using r6 by (simp add: lit_eq_def)
  have r4: "rmatch True (Seq (Star (Cls is_space)) (Seq (Lit CHR ''='') (Seq (Star (Cls is_space))
      (Seq (Group 1 (Cls quote_class)) (Seq (Group 2 (LazyStar (Cls dot))) (Seq (Backref 1) Eps))))))
      (St p4 ?x4 []) \<noteq> []" for p4
  proof (rule ok_SeqI)
    show "St (last_opt p4 ws1) ?x5 [] \<in> set (rmatch True (Star (Cls is_space)) (St p4 ?x4 []))"
      unfolding mem_Star_Cls using ws by blast
    show "rmatch True (Seq (Lit CHR ''='') (Seq (Star (Cls is_space)) (Seq (Group 1 (Cls quote_class))
        (Seq (Group 2 (LazyStar (Cls dot))) (Seq (Backref 1) Eps))))) (St (last_opt p4 ws1) ?x5 []) \<noteq> []"
      by (rule r5)
  qed
  have r3: "rmatch True (Seq (lits ''lang'') (Seq (Star (Cls is_space)) (Seq (Lit CHR ''='')
      (Seq (Star (Cls is_space)) (Seq (Group 1 (Cls quote_class))
      (Seq (Group 2 (LazyStar (Cls dot))) (Seq (Backref 1) Eps)))))))
      (St p3 ?x3 []) \<noteq> []" for p3
  proof (rule ok_SeqI)
    show "St (last_opt p3 l) ?x4 [] \<in> set (rmatch True (lits ''lang'') (St p3 ?x3 []))"
      unfolding mem_lits list_all2_lit_eq_True using l by blast
    show "rmatch True (Seq (Star (Cls is_space)) (Seq (Lit CHR ''='') (Seq (Star (Cls is_space))
        (Seq (Group 1 (Cls quote_class)) (Seq (Group 2 (LazyStar (Cls dot))) (Seq (Backref 1) Eps))))))
        (St (last_opt p3 l) ?x4 []) \<noteq> []"
      by (rule r4)
  qed
  have r2: "rmatch True (Seq WordB (Seq (lits ''lang'') (Seq (Star (Cls is_space)) (Seq (Lit CHR ''='')
      (Seq (Star (Cls is_space)) (Seq (Group 1 (Cls quote_class))
      (Seq (Group 2 (LazyStar (Cls dot))) (Seq (Backref 1) Eps))))))))
      (St (Some (last mid)) ?x3 []) \<noteq> []"
  proof (rule ok_SeqI)
    have "at_boundary (St (Some (last mid)) ?x3 [])"
      using l_word mid(3) by (auto simp: at_boundary_def)
    then show "St (Some (last mid)) ?x3 [] \<in> set (rmatch True WordB (St (Some (last mid)) ?x3 []))"
      unfolding mem_WordB by simp
    show "rmatch True (Seq (lits ''lang'') (Seq (Star (Cls is_space)) (Seq (Lit CHR ''='')
        (Seq (Star (Cls is_space)) (Seq (Group 1 (Cls quote_class))
        (Seq (Group 2 (LazyStar (Cls dot))) (Seq (Backref 1) Eps)))))))
        (St (Some (last mid)) ?x3 []) \<noteq> []"
      by (rule r3)
  qed
  have r1: "rmatch True (Seq (Star (Cls not_gt)) (Seq WordB (Seq (lits ''lang'') (Seq (Star (Cls is_space))
      (Seq (Lit CHR ''='') (Seq (Star (Cls is_space)) (Seq (Group 1 (Cls quote_class))
      (Seq (Group 2 (LazyStar (Cls dot))) (Seq (Backref 1) Eps)))))))))
      (St p1 ?x2 []) \<noteq> []" for p1
  proof (rule ok_SeqI)
    have "St (last_opt p1 mid) ?x3 [] \<in> set (rmatch True (Star (Cls not_gt)) (St p1 ?x2 []))"
      unfolding mem_Star_Cls using mid(1) by (auto simp: not_gt_def)
    then show "St (Some (last mid)) ?x3 [] \<in> set (rmatch True (Star (Cls not_gt)) (St p1 ?x2 []))"
      using mid(2) by (simp add: last_opt_def)
    show "rmatch True (Seq WordB (Seq (lits ''lang'') (Seq (Star (Cls is_space)) (Seq (Lit CHR ''='')
        (Seq (Star (Cls is_space)) (Seq (Group 1 (Cls quote_class))
        (Seq (Group 2 (LazyStar (Cls dot))) (Seq (Backref 1) Eps))))))))
        (St (Some (last mid)) ?x3 []) \<noteq> []"
      by (rule r2)
  qed
  show ?thesis
    unfolding lang_re_def seqs.simps
  proof (rule ok_SeqI)
    show "St (last_opt p h) ?x2 [] \<in> set (rmatch True (lits ''<html'') (St p ?x1 []))"
      unfolding mem_lits list_all2_lit_eq_True using h by blast
    show "rmatch True (Seq (Star (Cls not_gt)) (Seq WordB (Seq (lits ''lang'') (Seq (Star (Cls is_space))
        (Seq (Lit CHR ''='') (Seq (Star (Cls is_space)) (Seq (Group 1 (Cls quote_class))
        (Seq (Group 2 (LazyStar (Cls dot))) (Seq (Backref 1) Eps)))))))))
        (St (last_opt p h) ?x2 []) \<noteq> []"
      by (rule r1)
  qed
qed

text \<open>
  C7 (as the specification states it, refuted). In \<^verbatim>\<open><html><body lang="en">\<close> a
  \<^verbatim>\<open>lang\<close> assignment comes after the \<^verbatim>\<open><html\<close> in the document, and in the second
  document the html tag itself has a \<^verbatim>\<open>lang\<close> attribute with a double-quoted value,
  which holds a newline. Check 3 fails on both: the pattern does not go beyond the first
  \<^verbatim>\<open>>\<close> after \<^verbatim>\<open><html\<close>, and the value it accepts ends before the next newline.
\<close>

theorem lang_after_tag_or_across_lines_fails:
  "spec_lang_attribute doc_lang_later \<and> \<not> passed (check3 doc_lang_later)
   \<and> spec_lang_attribute doc_lang_newline \<and> \<not> passed (check3 doc_lang_newline)"
  by code_simp

text \<open>
  C7 (amended). Check 3 passes if at some occurrence of \<^verbatim>\<open><html\<close> (up to case; any
  occurrence in the document, not the first only) the text that follows holds, before
  any \<^verbatim>\<open>>\<close>, the word \<^verbatim>\<open>lang\<close> (up to case, after a character that is no letter, digit
  or underscore), optional whitespace, \<^verbatim>\<open>=\<close>, optional whitespace, and a value between
  two double or two single quotes with no newline in it.
\<close>

theorem lang_attribute_in_html_tag:
  assumes "content = pre @ h @ mid @ l @ ws1 @ CHR ''='' # ws2 @ q # v @ q # post"
    and "ci_eq h ''<html''"
    and "\<forall>x \<in> set mid. x \<noteq> CHR ''>''" "mid \<noteq> []" "\<not> is_word (last mid)"
    and "ci_eq l ''lang''"
    and "\<forall>x \<in> set ws1. is_space x" "\<forall>x \<in> set ws2. is_space x"
    and "q = dquote \<or> q = squote"
    and "newline \<notin> set v"
  shows "passed (check3 content)"
proof -
  have "rmatch True lang_re
      (St (last_opt None pre) (h @ mid @ l @ ws1 @ CHR ''='' # ws2 @ q # v @ q # post) []) \<noteq> []"
    using assms(2-) by (rule lang_re_matches)
  with assms(1) have "re_search True lang_re content"
    unfolding re_search_def search_from_iff by blast
  then show ?thesis
    by (simp add: check3_def passed_def)
qed

theorem lang_attribute_in_html_tag_witness: "passed (check3 doc_lang_second_tag)"
proof -
  have "doc_lang_second_tag
      = ''<html>'' @ ''<HTML'' @ '' '' @ ''Lang'' @ '' '' @ CHR ''='' # [] @ dquote # ''en'' @ dquote # ''>''"
    by (simp add: doc_lang_second_tag_def dquote_def)
  moreover have "ci_eq ''<HTML'' ''<html''" "ci_eq ''Lang'' ''lang''" by code_simp+
  moreover have "\<forall>x \<in> set '' ''. x \<noteq> CHR ''>''" "\<not> is_word (last '' '')" by code_simp+
  moreover have "\<forall>x \<in> set '' ''. is_space x" "newline \<notin> set ''en''" by code_simp+
  ultimately show ?thesis
    using lang_attribute_in_html_tag
      [of doc_lang_second_tag "''<html>''" "''<HTML''" "'' ''" "''Lang''" "'' ''" "[]" dquote
          "''en''" "''>''"]
    by simp
qed

section \<open>The rules are evaluated one by one\<close>

text \<open>
  C8. On the minimal valid document every check passes; on the same document without
  its doctype declaration check 1 fails and the other seven pass as before. Each result
  of the evaluator is the value of its own rule on the text of the document, so that no
  rule reads the outcome of another.
\<close>

theorem removing_doctype_flips_check1_only:
  "minimal_doc = ''<!DOCTYPE html>'' @ minimal_doc_without_doctype
   \<and> map passed (fst (checks minimal_doc))
      = [True, True, True, True, True, True, True, True]
   \<and> map passed (fst (checks minimal_doc_without_doctype))
      = [False, True, True, True, True, True, True, True]
   \<and> (\<forall>content. fst (checks content)
        = map (\<lambda>rule. rule content)
              [check1, check2, check3, check4, check5, check6, check7, check8])"
  using minimal_doc_passes minimal_doc_without_doctype_result minimal_doc_split
  by (simp add: checks_def)

theorem removing_doctype_flips_check1_only_witness:
  "\<not> passed (check1 minimal_doc_without_doctype)
   \<and> passed (check2 minimal_doc_without_doctype)"
  using removing_doctype_flips_check1_only by (simp add: checks_def)

section \<open>Check 6: the title\<close>

lemma check6_iff: "passed (check6 content) \<longleftrightarrow> title_after_head content"
  unfolding check6_def passed_def Let_def title_re_def title_after_head_def title_on_one_line_def
  apply (simp add: re_search_prev_indep prev_indep_lits ok_Seq_lits ok_Seq_LazyStar_Cls
      somewhere_within_any mem_Eps nonempty_iff_mem [of "rmatch _ Eps _"])
  done

lemma title_after_head_decomposition:
  assumes "title_after_head content"
  shows "\<exists>pre h mid t v e post. content = pre @ h @ mid @ t @ v @ e @ post
     \<and> ci_eq h ''<head'' \<and> ci_eq t ''<title>'' \<and> ci_eq e ''</title>'' \<and> newline \<notin> set v"
proof -
  from assms obtain pre s where 1: "content = pre @ s" "starts_with_ci ''<head'' s"
      "somewhere title_on_one_line (drop (length ''<head'') s)"
    unfolding title_after_head_def somewhere_iff by blast
  from 1(2) obtain h z where 2: "s = h @ z" "ci_eq h ''<head''"
    unfolding starts_with_ci_iff by blast
  then have "length h = length ''<head''" by (simp add: ci_eq_length)
  with 1(3) 2 have "somewhere title_on_one_line z" by simp
  then obtain mid s2 where 3: "z = mid @ s2" "starts_with_ci ''<title>'' s2"
      "somewhere_within dot (starts_with_ci ''</title>'') (drop (length ''<title>'') s2)"
    unfolding somewhere_iff title_on_one_line_def by blast
  from 3(2) obtain t z2 where 4: "s2 = t @ z2" "ci_eq t ''<title>''"
    unfolding starts_with_ci_iff by blast
  then have "length t = length ''<title>''" by (simp add: ci_eq_length)
  with 3(3) 4 have "somewhere_within dot (starts_with_ci ''</title>'') z2" by simp
  then obtain v z3 where 5: "z2 = v @ z3" "\<forall>y \<in> set v. dot y" "starts_with_ci ''</title>'' z3"
    unfolding somewhere_within_iff by blast
  from 5(3) obtain e post where 6: "z3 = e @ post" "ci_eq e ''</title>''"
    unfolding starts_with_ci_iff by blast
  from 5(2) have "newline \<notin> set v" by (auto simp: dot_def)
  with 1 2 3 4 5 6 have "content = pre @ h @ mid @ t @ v @ e @ post
     \<and> ci_eq h ''<head'' \<and> ci_eq t ''<title>'' \<and> ci_eq e ''</title>'' \<and> newline \<notin> set v"
    by simp
  then show ?thesis by blast
qed

lemma title_examples:
  "passed (check6 ''<header><title>T</title>'')"
  "\<not> somewhere title_on_one_line doc_title_two_lines"
  "\<not> somewhere (starts_with_ci ''<title>'') doc_title_attribute"
  by code_simp+

text \<open>
  C9. Check 6 passes only for a document with an occurrence of \<^verbatim>\<open><head\<close> (up to case),
  later the tag \<^verbatim>\<open><title>\<close> without attributes, and a \<^verbatim>\<open></title>\<close> after it with no
  newline in between. The \<^verbatim>\<open><head\<close> of \<^verbatim>\<open><header>\<close> is enough. A document in which no
  \<^verbatim>\<open><title>\<close> is closed before the next newline fails the check, and so does a document
  in which no tag is written \<^verbatim>\<open><title>\<close>, as when the title tag has attributes.
\<close>

theorem title_on_one_line_after_head:
  "(passed (check6 content) \<longrightarrow>
      title_after_head content
      \<and> (\<exists>pre h mid t v e post. content = pre @ h @ mid @ t @ v @ e @ post
            \<and> ci_eq h ''<head'' \<and> ci_eq t ''<title>'' \<and> ci_eq e ''</title>''
            \<and> newline \<notin> set v))
   \<and> passed (check6 ''<header><title>T</title>'')
   \<and> (\<not> somewhere title_on_one_line content \<longrightarrow> \<not> passed (check6 content))
   \<and> (\<not> somewhere (starts_with_ci ''<title>'') content \<longrightarrow> \<not> passed (check6 content))"
proof -
  have 1: "somewhere title_on_one_line content" if "title_after_head content"
    using that unfolding title_after_head_def somewhere_iff
    by (metis append_assoc append_take_drop_id)
  have 2: "somewhere (starts_with_ci ''<title>'') content" if "somewhere title_on_one_line content"
    using that unfolding somewhere_iff title_on_one_line_def by blast
  show ?thesis
    using 1 2 title_after_head_decomposition title_examples(1)
    by (auto simp: check6_iff)
qed

theorem title_on_one_line_after_head_witness:
  "title_after_head ''<header><title>T</title>''
   \<and> \<not> passed (check6 doc_title_two_lines)
   \<and> \<not> passed (check6 doc_title_attribute)"
  using title_on_one_line_after_head [of "''<header><title>T</title>''"]
    title_on_one_line_after_head [of doc_title_two_lines]
    title_on_one_line_after_head [of doc_title_attribute]
    title_examples
  by simp

section \<open>Check 7: which link tags are extracted\<close>



end
